theory Spec2Isabelle
  imports Complex_Main
begin

section \<open>Errors\<close>

text \<open>
  Exceptions of the Python code are values.  \<open>HTTPException\<close> carries the status code
  that \<^verbatim>\<open>main.py\<close> gives it; the others are the Python and networkx exceptions that
  the modelled functions can raise.
\<close>

datatype error =
    NetworkXError
  | KeyError
  | ZeroDivisionError
  | ValueError
  | HTTPException nat

section \<open>The road graph\<close>

text \<open>
  A networkx multigraph: the node table in insertion order, each node with its
  attributes \<open>x\<close> (longitude) and \<open>y\<close> (latitude), and the edges in the order in which
  \<^verbatim>\<open>G.edges(keys=True, data=True)\<close> yields them.  An edge attribute that the code reads
  with \<^verbatim>\<open>data.get(attr, default)\<close> is optional.  OSM tags (\<open>name\<close>, \<open>highway\<close>) are a
  string or a non-empty list of strings.  Floats are modelled as exact reals.
\<close>

type_synonym node = int

datatype tag = Str string | StrList string "string list"

record edge =
  edge_src :: node
  edge_dst :: node
  edge_id :: nat
  length_m :: "real option"
  name :: "tag option"
  highway :: "tag option"
  estimated_addresses :: "int option"
  edge_geometry :: "(real \<times> real) list option"

record graph =
  directed :: bool
  nodes :: "(node \<times> real \<times> real) list"
  edges :: "edge list"
  zone_id :: "nat option"

definition node_ids :: "graph \<Rightarrow> node list" where
  "node_ids G = map fst (nodes G)"

text \<open>networkx keeps the invariant that both endpoints of an edge are nodes.\<close>

definition wf_graph :: "graph \<Rightarrow> bool" where
  "wf_graph G = list_all (\<lambda>e. edge_src e \<in> set (node_ids G) \<and> edge_dst e \<in> set (node_ids G)) (edges G)"

text \<open>The keys of a Python dict built by inserting \<open>xs\<close> in order: first occurrences.\<close>

definition dict_keys :: "'a list \<Rightarrow> 'a list" where
  "dict_keys xs = rev (remdups (rev xs))"

text \<open>
  \<^verbatim>\<open>G.neighbors(n)\<close>: the successors of \<open>n\<close> in a directed graph, the adjacent nodes in
  an undirected one, each once.
\<close>

definition neighbors :: "graph \<Rightarrow> node \<Rightarrow> node list" where
  "neighbors G n =
     (if directed G then dict_keys (map edge_dst (filter (\<lambda>e. edge_src e = n) (edges G)))
      else dict_keys (map (\<lambda>e. if edge_src e = n then edge_dst e else edge_src e)
             (filter (\<lambda>e. edge_src e = n \<or> edge_dst e = n) (edges G))))"

text \<open>The steps a path may take: along an edge, and against it when the graph is undirected.\<close>

definition arcs :: "graph \<Rightarrow> (node \<times> node) list" where
  "arcs G =
     (if directed G then map (\<lambda>e. (edge_src e, edge_dst e)) (edges G)
      else concat (map (\<lambda>e. [(edge_src e, edge_dst e), (edge_dst e, edge_src e)]) (edges G)))"

text \<open>\<^verbatim>\<open>nx.has_path(G, u, v)\<close> for nodes of \<open>G\<close>: \<open>v\<close> is reachable from \<open>u\<close>.\<close>

definition has_path :: "graph \<Rightarrow> node \<Rightarrow> node \<Rightarrow> bool" where
  "has_path G u v = (u = v \<or> (u, v) \<in> (set (arcs G))\<^sup>+)"

text \<open>
  \<^verbatim>\<open>MultiDiGraph.to_undirected()\<close>: the edges are added one by one to an undirected
  multigraph; an edge whose endpoints (in either order) and key are already there
  only updates the attributes of the edge that is there.
\<close>

definition merge_attrs :: "edge \<Rightarrow> edge \<Rightarrow> edge" where
  "merge_attrs old new =
     old\<lparr>length_m := (case length_m new of None \<Rightarrow> length_m old | Some l \<Rightarrow> Some l),
         name := (case name new of None \<Rightarrow> name old | Some s \<Rightarrow> Some s),
         highway := (case highway new of None \<Rightarrow> highway old | Some h \<Rightarrow> Some h),
         estimated_addresses :=
           (case estimated_addresses new of None \<Rightarrow> estimated_addresses old | Some a \<Rightarrow> Some a),
         edge_geometry :=
           (case edge_geometry new of None \<Rightarrow> edge_geometry old | Some g \<Rightarrow> Some g)\<rparr>"

definition same_undirected_edge :: "edge \<Rightarrow> edge \<Rightarrow> bool" where
  "same_undirected_edge a b =
     (edge_id a = edge_id b \<and>
      ((edge_src a = edge_src b \<and> edge_dst a = edge_dst b) \<or>
       (edge_src a = edge_dst b \<and> edge_dst a = edge_src b)))"

fun add_undirected_edge :: "edge \<Rightarrow> edge list \<Rightarrow> edge list" where
  "add_undirected_edge e [] = [e]"
| "add_undirected_edge e (d # ds) =
     (if same_undirected_edge d e then merge_attrs d e # ds else d # add_undirected_edge e ds)"

definition to_undirected :: "graph \<Rightarrow> graph" where
  "to_undirected G =
     G\<lparr>directed := False, edges := foldl (\<lambda>acc e. add_undirected_edge e acc) [] (edges G)\<rparr>"

text \<open>
  \<^verbatim>\<open>G.get_edge_data(u, v)\<close>: the parallel edges from \<open>u\<close> to \<open>v\<close> in key order, empty when
  there is none (Python's \<^verbatim>\<open>None\<close>).
\<close>

definition get_edge_data :: "graph \<Rightarrow> node \<Rightarrow> node \<Rightarrow> edge list" where
  "get_edge_data G u v =
     (if directed G then filter (\<lambda>e. edge_src e = u \<and> edge_dst e = v) (edges G)
      else filter (\<lambda>e. (edge_src e = u \<and> edge_dst e = v) \<or> (edge_src e = v \<and> edge_dst e = u))
             (edges G))"

section \<open>Router (routing.py)\<close>

subsection \<open>The edge-cover walk: \<^verbatim>\<open>generate_simple_route\<close>\<close>

text \<open>\<^verbatim>\<open>tuple(sorted([u, v]))\<close>\<close>

definition edge_key :: "node \<Rightarrow> node \<Rightarrow> node \<times> node" where
  "edge_key u v = (min u v, max u v)"

record walk_state =
  visited_edges :: "(node \<times> node) set"
  route :: "node list"
  current :: node
  iterations :: nat

definition max_iterations :: "graph \<Rightarrow> nat" where
  "max_iterations G = length (edges G) * 3 + 100"

text \<open>Why the loop stopped.\<close>

datatype loop_exit =
    Covered       \<comment> \<open>\<^verbatim>\<open>len(visited_edges) < len(G.edges)\<close> is false\<close>
  | CapReached    \<comment> \<open>\<^verbatim>\<open>iterations < max_iterations\<close> is false\<close>
  | NothingLeft   \<comment> \<open>\<^verbatim>\<open>if not nodes_with_unvisited: break\<close>\<close>
  | Unreachable   \<comment> \<open>no \<^verbatim>\<open>best_path\<close>: \<^verbatim>\<open>break\<close>\<close>
  | Raised        \<comment> \<open>\<^verbatim>\<open>G.neighbors(current)\<close> raises for a node that is not in \<open>G\<close>\<close>

definition unvisited_neighbors :: "graph \<Rightarrow> walk_state \<Rightarrow> node list" where
  "unvisited_neighbors G st =
     filter (\<lambda>neighbor. edge_key (current st) neighbor \<notin> visited_edges st)
       (neighbors G (current st))"

text \<open>
  The nodes added to the Python set \<^verbatim>\<open>nodes_with_unvisited\<close>, in the order in which
  they are added.  The order in which Python then iterates the set is the parameter
  \<open>set_iter\<close> of the loop.
\<close>

definition nodes_with_unvisited :: "graph \<Rightarrow> walk_state \<Rightarrow> node list" where
  "nodes_with_unvisited G st =
     concat (map (\<lambda>e. [edge_src e, edge_dst e])
       (filter (\<lambda>e. edge_key (edge_src e) (edge_dst e) \<notin> visited_edges st) (edges G)))"

text \<open>
  The scan for the best target.  \<open>sp G u v\<close> stands for
  \<^verbatim>\<open>nx.shortest_path(G, u, v, weight="length")\<close>.  \<open>best\<close> is \<^verbatim>\<open>(best_target, best_path)\<close>,
  \<open>None\<close> while \<^verbatim>\<open>best_len\<close> is infinite.
\<close>

fun pick_target ::
  "(graph \<Rightarrow> node \<Rightarrow> node \<Rightarrow> node list) \<Rightarrow> graph \<Rightarrow> node \<Rightarrow> node list \<Rightarrow>
     (node \<times> node list) option \<Rightarrow> (node \<times> node list) option" where
  "pick_target sp G cur [] best = best"
| "pick_target sp G cur (target # targets) best =
     (if has_path G cur target
      then (if (case best of None \<Rightarrow> True
                 | Some (_, best_path) \<Rightarrow> length (sp G cur target) < length best_path)
            then pick_target sp G cur targets (Some (target, sp G cur target))
            else pick_target sp G cur targets best)
      else pick_target sp G cur targets best)"

text \<open>One pass through the body of the \<^verbatim>\<open>while\<close> loop, after \<^verbatim>\<open>iterations += 1\<close>.\<close>

definition loop_body ::
  "(graph \<Rightarrow> node \<Rightarrow> node \<Rightarrow> node list) \<Rightarrow> (node list \<Rightarrow> node list) \<Rightarrow> graph \<Rightarrow>
     walk_state \<Rightarrow> (loop_exit \<times> walk_state) + walk_state" where
  "loop_body sp set_iter G st =
     (if current st \<notin> set (node_ids G) then Inl (Raised, st)
      else case unvisited_neighbors G st of
        next_node # _ \<Rightarrow>
          Inr (st\<lparr>route := route st @ [next_node],
                  visited_edges := insert (edge_key (current st) next_node) (visited_edges st),
                  current := next_node\<rparr>)
      | [] \<Rightarrow>
          (if set_iter (nodes_with_unvisited G st) = [] then Inl (NothingLeft, st)
           else case pick_target sp G (current st) (set_iter (nodes_with_unvisited G st)) None of
             None \<Rightarrow> Inl (Unreachable, st)
           | Some (best_target, best_path) \<Rightarrow>
               if best_path = [] then Inl (Unreachable, st)
               else Inr (st\<lparr>route := route st @ tl best_path, current := best_target\<rparr>)))"

function cover_loop ::
  "(graph \<Rightarrow> node \<Rightarrow> node \<Rightarrow> node list) \<Rightarrow> (node list \<Rightarrow> node list) \<Rightarrow> graph \<Rightarrow>
     walk_state \<Rightarrow> loop_exit \<times> walk_state" where
  "cover_loop sp set_iter G st =
     (if \<not> card (visited_edges st) < length (edges G) then (Covered, st)
      else if \<not> iterations st < max_iterations G then (CapReached, st)
      else case loop_body sp set_iter G (st\<lparr>iterations := iterations st + 1\<rparr>) of
             Inl stopped \<Rightarrow> stopped
           | Inr st' \<Rightarrow> cover_loop sp set_iter G st')"
  by pat_completeness auto
termination
  by (relation "measure (\<lambda>(sp, set_iter, G, st). max_iterations G - iterations st)")
     (auto simp: loop_body_def split: if_splits list.splits option.splits)

definition init_walk :: "node \<Rightarrow> walk_state" where
  "init_walk start_node =
     \<lparr>visited_edges = {}, route = [start_node], current = start_node, iterations = 0\<rparr>"

text \<open>The return to the start after the loop.\<close>

definition return_leg ::
  "(graph \<Rightarrow> node \<Rightarrow> node \<Rightarrow> node list) \<Rightarrow> graph \<Rightarrow> node \<Rightarrow> bool \<Rightarrow> walk_state \<Rightarrow> node list" where
  "return_leg sp G start_node return_to_start st =
     (if return_to_start \<and> current st \<noteq> start_node
      then (if has_path G (current st) start_node
            then route st @ tl (sp G (current st) start_node)
            else route st)
      else route st)"

definition generate_simple_route ::
  "(graph \<Rightarrow> node \<Rightarrow> node \<Rightarrow> node list) \<Rightarrow> (node list \<Rightarrow> node list) \<Rightarrow> graph \<Rightarrow>
     node \<Rightarrow> bool \<Rightarrow> error + node list" where
  "generate_simple_route sp set_iter G start_node return_to_start =
     (case cover_loop sp set_iter G (init_walk start_node) of
        (Raised, st) \<Rightarrow> Inl NetworkXError
      | (_, st) \<Rightarrow> Inr (return_leg sp G start_node return_to_start st))"

text \<open>
  What the code relies on from the two library components it calls, for a graph \<open>G\<close>:
  a shortest path between two connected nodes of \<open>G\<close> is a non-empty list of nodes of
  \<open>G\<close> from the source to the target, and iterating a Python set yields its elements.
\<close>

definition shortest_path_contract :: "(graph \<Rightarrow> node \<Rightarrow> node \<Rightarrow> node list) \<Rightarrow> graph \<Rightarrow> bool" where
  "shortest_path_contract sp G =
     (\<forall>u \<in> set (node_ids G). \<forall>v \<in> set (node_ids G).
        has_path G u v \<longrightarrow>
          sp G u v \<noteq> [] \<and> hd (sp G u v) = u \<and> last (sp G u v) = v \<and>
          set (sp G u v) \<subseteq> set (node_ids G))"

definition set_iter_contract :: "(node list \<Rightarrow> node list) \<Rightarrow> bool" where
  "set_iter_contract set_iter = (\<forall>xs. set (set_iter xs) = set xs)"

subsection \<open>\<^verbatim>\<open>find_nearest_node\<close>\<close>

text \<open>The accumulator is \<^verbatim>\<open>(min_dist, nearest)\<close>, \<open>None\<close> while \<^verbatim>\<open>min_dist\<close> is infinite.\<close>

fun nearest_scan ::
  "(node \<times> real \<times> real) list \<Rightarrow> real \<times> real \<Rightarrow> (real \<times> node) option \<Rightarrow> (real \<times> node) option" where
  "nearest_scan [] point best = best"
| "nearest_scan ((n, node_lng, node_lat) # rest) (lat, lng) best =
     nearest_scan rest (lat, lng)
       (case best of
          None \<Rightarrow> Some ((node_lat - lat)\<^sup>2 + (node_lng - lng)\<^sup>2, n)
        | Some (min_dist, nearest) \<Rightarrow>
            if (node_lat - lat)\<^sup>2 + (node_lng - lng)\<^sup>2 < min_dist
            then Some ((node_lat - lat)\<^sup>2 + (node_lng - lng)\<^sup>2, n)
            else Some (min_dist, nearest))"

definition find_nearest_node :: "graph \<Rightarrow> real \<times> real \<Rightarrow> node option" where
  "find_nearest_node G point = map_option snd (nearest_scan (nodes G) point None)"

subsection \<open>\<^verbatim>\<open>generate_turn_by_turn\<close>\<close>

record direction =
  instruction :: string
  distance_m :: real
  street_name :: string
  step :: "nat option"

definition edge_length :: "edge \<Rightarrow> real" where
  "edge_length e = (case length_m e of None \<Rightarrow> 0 | Some l \<Rightarrow> l)"

definition street_name_of :: "edge \<Rightarrow> string" where
  "street_name_of e =
     (case name e of None \<Rightarrow> ''Unnamed Road'' | Some (Str s) \<Rightarrow> s | Some (StrList s _) \<Rightarrow> s)"

text \<open>
  The edge data used for the pair \<open>(a, b)\<close>: the first key of the edges from \<open>a\<close> to
  \<open>b\<close>, else of the edges from \<open>b\<close> to \<open>a\<close>.
\<close>

definition first_edge_data :: "graph \<Rightarrow> node \<Rightarrow> node \<Rightarrow> edge option" where
  "first_edge_data G a b =
     (case get_edge_data G a b of
        e # _ \<Rightarrow> Some e
      | [] \<Rightarrow> (case get_edge_data G b a of e # _ \<Rightarrow> Some e | [] \<Rightarrow> None))"

fun directions_from :: "graph \<Rightarrow> nat \<Rightarrow> node list \<Rightarrow> direction list" where
  "directions_from G i (a # b # rest) =
     (case first_edge_data G a b of
        None \<Rightarrow> []
      | Some e \<Rightarrow>
          [\<lparr>instruction = (if i = 0 then ''Start on '' else ''Continue on '') @ street_name_of e,
            distance_m = edge_length e,
            street_name = street_name_of e,
            step = None\<rparr>])
     @ directions_from G (Suc i) (b # rest)"
| "directions_from G i [a] = []"
| "directions_from G i [] = []"

fun merge_directions :: "direction list \<Rightarrow> direction list \<Rightarrow> direction list" where
  "merge_directions merged [] = merged"
| "merge_directions merged (d # ds) =
     (if merged \<noteq> [] \<and> street_name (last merged) = street_name d
      then merge_directions
             (butlast merged @ [(last merged)\<lparr>distance_m := distance_m (last merged) + distance_m d\<rparr>]) ds
      else merge_directions (merged @ [d]) ds)"

fun number_steps :: "nat \<Rightarrow> direction list \<Rightarrow> direction list" where
  "number_steps i [] = []"
| "number_steps i (d # ds) =
     d\<lparr>step := Some (i + 1),
       instruction := (if i > 0 then ''Turn onto '' @ street_name d else instruction d)\<rparr>
     # number_steps (Suc i) ds"

definition generate_turn_by_turn :: "graph \<Rightarrow> node list \<Rightarrow> direction list" where
  "generate_turn_by_turn G route_nodes =
     number_steps 0 (merge_directions [] (directions_from G 0 route_nodes))"

subsection \<open>\<^verbatim>\<open>generate_route_for_zone\<close>\<close>

datatype geojson = LineString "(real \<times> real) list"

record route_data =
  waypoints :: "(real \<times> real) list"
  geometry :: geojson
  total_distance_m :: real
  turn_by_turn :: "direction list"

definition node_coords :: "graph \<Rightarrow> node \<Rightarrow> (real \<times> real) option" where
  "node_coords G n = map_of (nodes G) n"

text \<open>
  The start node: nearest to the given point, or to the mean of the node coordinates
  (which divides by the number of nodes).
\<close>

definition choose_start :: "graph \<Rightarrow> (real \<times> real) option \<Rightarrow> error + node option" where
  "choose_start zone start_point =
     (case start_point of
        Some p \<Rightarrow> Inr (find_nearest_node zone p)
      | None \<Rightarrow>
          if nodes zone = [] then Inl ZeroDivisionError
          else Inr (find_nearest_node zone
                 (sum_list (map (\<lambda>(n, x, y). y) (nodes zone)) / real (length (nodes zone)),
                  sum_list (map (\<lambda>(n, x, y). x) (nodes zone)) / real (length (nodes zone)))))"

text \<open>\<^verbatim>\<open>G_route\<close>: the undirected projection for walking, a copy of the zone otherwise.\<close>

definition route_graph :: "string \<Rightarrow> graph \<Rightarrow> graph" where
  "route_graph travel_mode zone = (if travel_mode = ''walking'' then to_undirected zone else zone)"

text \<open>
  The loop over \<^verbatim>\<open>enumerate(route_nodes)\<close>: \<open>prev\<close> is \<^verbatim>\<open>route_nodes[i - 1]\<close>, absent
  for \<open>i = 0\<close>.  Waypoints are \<open>(lat, lng)\<close>.
\<close>

fun walk_waypoints ::
  "graph \<Rightarrow> node option \<Rightarrow> node list \<Rightarrow> (real \<times> real) list \<Rightarrow> real \<Rightarrow>
     error + ((real \<times> real) list \<times> real)" where
  "walk_waypoints zone prev [] wps total_distance = Inr (wps, total_distance)"
| "walk_waypoints zone prev (n # rest) wps total_distance =
     (case node_coords zone n of
        None \<Rightarrow> Inl KeyError
      | Some (lng, lat) \<Rightarrow>
          walk_waypoints zone (Some n) rest (wps @ [(lat, lng)])
            (case prev of
               None \<Rightarrow> total_distance
             | Some prev_node \<Rightarrow>
                 (case first_edge_data zone prev_node n of
                    None \<Rightarrow> total_distance
                  | Some e \<Rightarrow> total_distance + edge_length e)))"

definition generate_route_for_zone ::
  "(graph \<Rightarrow> node \<Rightarrow> node \<Rightarrow> node list) \<Rightarrow> (node list \<Rightarrow> node list) \<Rightarrow> graph \<Rightarrow>
     (real \<times> real) option \<Rightarrow> bool \<Rightarrow> string \<Rightarrow> error + route_data" where
  "generate_route_for_zone sp set_iter zone start_point return_to_start travel_mode =
     (if length (edges zone) = 0
      then Inr \<lparr>waypoints = [], geometry = LineString [], total_distance_m = 0, turn_by_turn = []\<rparr>
      else case choose_start zone start_point of
        Inl e \<Rightarrow> Inl e
      | Inr None \<Rightarrow> Inl NetworkXError
      | Inr (Some start_node) \<Rightarrow>
          (case generate_simple_route sp set_iter (route_graph travel_mode zone) start_node
                  return_to_start of
             Inl e \<Rightarrow> Inl e
           | Inr route_nodes \<Rightarrow>
               (case walk_waypoints zone None route_nodes [] 0 of
                  Inl e \<Rightarrow> Inl e
                | Inr (wps, total_distance) \<Rightarrow>
                    Inr \<lparr>waypoints = wps,
                         geometry = LineString (map (\<lambda>(lat, lng). (lng, lat)) wps),
                         total_distance_m = total_distance,
                         turn_by_turn = generate_turn_by_turn zone route_nodes\<rparr>)))"

subsection \<open>Notions used to state the properties of the walk\<close>

text \<open>The visited-edge keys of all edges of a graph, and those of the steps of a walk.\<close>

definition key_of :: "edge \<Rightarrow> node \<times> node" where
  "key_of e = edge_key (edge_src e) (edge_dst e)"

definition edge_keys :: "graph \<Rightarrow> (node \<times> node) set" where
  "edge_keys G = (\<lambda>e. edge_key (edge_src e) (edge_dst e)) ` set (edges G)"

definition traversed :: "node list \<Rightarrow> (node \<times> node) set" where
  "traversed r = (\<lambda>(a, b). edge_key a b) ` set (zip r (tl r))"

text \<open>
  A walk visits an edge when the two endpoints of the edge are consecutive in the walk,
  in either order: the code identifies an edge with its unordered pair of endpoints.
\<close>

definition edge_traversed :: "node list \<Rightarrow> edge \<Rightarrow> bool" where
  "edge_traversed r e =
     ((edge_src e, edge_dst e) \<in> set (zip r (tl r)) \<or> (edge_dst e, edge_src e) \<in> set (zip r (tl r)))"

definition covers_all_edges :: "node list \<Rightarrow> graph \<Rightarrow> bool" where
  "covers_all_edges r G = list_all (edge_traversed r) (edges G)"

text \<open>
  Every node reaches every node along the steps the graph allows: strong connectivity of
  a directed graph, connectivity of an undirected one.  A directed graph is weakly
  connected when its undirected projection is connected (\<^verbatim>\<open>nx.is_weakly_connected\<close>).
\<close>

definition strongly_connected :: "graph \<Rightarrow> bool" where
  "strongly_connected G = list_all (\<lambda>u. list_all (\<lambda>v. has_path G u v) (node_ids G)) (node_ids G)"

definition is_weakly_connected :: "graph \<Rightarrow> bool" where
  "is_weakly_connected G = strongly_connected (to_undirected G)"

text \<open>The invariant of the loop of \<^verbatim>\<open>generate_simple_route\<close> started at \<open>s\<close>.\<close>

definition walk_inv :: "node \<Rightarrow> graph \<Rightarrow> walk_state \<Rightarrow> bool" where
  "walk_inv s G st =
     (route st \<noteq> [] \<and> hd (route st) = s \<and> last (route st) = current st \<and>
      current st \<in> set (node_ids G) \<and> set (route st) \<subseteq> set (node_ids G) \<and>
      finite (visited_edges st) \<and> visited_edges st \<subseteq> edge_keys G \<and>
      visited_edges st \<subseteq> traversed (route st))"

section \<open>Export (export.py): the Google Maps URL\<close>

text \<open>\<^verbatim>\<open>xs[::k]\<close> for a step \<open>k\<close> of at least 1: every \<open>k\<close>-th element, from the first.\<close>

fun stride :: "nat \<Rightarrow> 'a list \<Rightarrow> 'a list" where
  "stride k [] = []"
| "stride k (x # xs) = x # stride k (drop (k - 1) xs)"

definition max_wp :: nat where
  "max_wp = 23"

definition sample_waypoints :: "'a list \<Rightarrow> 'a list" where
  "sample_waypoints wps =
     (if length wps > max_wp + 2
      then take max_wp (stride (length wps div max_wp) wps)
      else wps)"

text \<open>
  The coordinate points that the URL encodes, for a list of at least two waypoints:
  the origin, the waypoints \<^verbatim>\<open>sampled[1:-1]\<close> when there are more than two sampled
  points, and the destination.
\<close>

definition url_points :: "'a list \<Rightarrow> 'a list" where
  "url_points wps =
     (if length (sample_waypoints wps) > 2
      then [hd (sample_waypoints wps)] @ butlast (tl (sample_waypoints wps)) @
           [last (sample_waypoints wps)]
      else [hd (sample_waypoints wps), last (sample_waypoints wps)])"

text \<open>
  The URL.  \<open>fmt\<close> is Python's formatting of a float; the points are \<open>(lat, lng)\<close>.
\<close>

definition point_str :: "(real \<Rightarrow> string) \<Rightarrow> real \<times> real \<Rightarrow> string" where
  "point_str fmt p = fmt (fst p) @ '','' @ fmt (snd p)"

fun join_bar :: "string list \<Rightarrow> string" where
  "join_bar [] = []"
| "join_bar [s] = s"
| "join_bar (s # t # ss) = s @ ''|'' @ join_bar (t # ss)"

definition generate_google_maps_url :: "(real \<Rightarrow> string) \<Rightarrow> (real \<times> real) list \<Rightarrow> string \<Rightarrow> string" where
  "generate_google_maps_url fmt wps travel_mode =
     (if length wps < 2 then ''''
      else if length (sample_waypoints wps) > 2
      then ''https://www.google.com/maps/dir/?api=1'' @
           ''&origin='' @ point_str fmt (hd (sample_waypoints wps)) @
           ''&destination='' @ point_str fmt (last (sample_waypoints wps)) @
           ''&waypoints='' @ join_bar (map (point_str fmt) (butlast (tl (sample_waypoints wps)))) @
           ''&travelmode='' @ (if travel_mode = ''walking'' then ''walking'' else ''driving'')
      else ''https://www.google.com/maps/dir/?api=1'' @
           ''&origin='' @ point_str fmt (hd (sample_waypoints wps)) @
           ''&destination='' @ point_str fmt (last (sample_waypoints wps)) @
           ''&travelmode='' @ (if travel_mode = ''walking'' then ''walking'' else ''driving''))"

section \<open>Orchestrator (main.py): flyer allocation and the routes\<close>

text \<open>Python's \<^verbatim>\<open>int(x)\<close> of a float: truncation toward zero.\<close>

definition py_int :: "real \<Rightarrow> int" where
  "py_int x = (if 0 \<le> x then \<lfloor>x\<rfloor> else \<lceil>x\<rceil>)"

text \<open>\<^verbatim>\<open>get_zone_stats(zone)["estimated_addresses"]\<close> (partition.py)\<close>

definition edge_addresses :: "edge \<Rightarrow> int" where
  "edge_addresses e = (case estimated_addresses e of None \<Rightarrow> 0 | Some a \<Rightarrow> a)"



text \<open>
  Step 5.  The body of the loop over \<^verbatim>\<open>zone_stats_list\<close>: the share of one zone.  The
  quotient \<^verbatim>\<open>(total_flyers * addresses) / total_zone_addresses\<close> is a float division.
\<close>

definition flyers_for :: "int \<Rightarrow> int \<Rightarrow> nat \<Rightarrow> int \<Rightarrow> int" where
  "flyers_for flyers total_zone_addresses num_zones zs_addresses =
     (if total_zone_addresses > 0
      then py_int (real_of_int (flyers * zs_addresses) / real_of_int total_zone_addresses)
      else flyers div int num_zones)"

text \<open>\<^verbatim>\<open>flyers_per_route\<close> after the rounding fix; there is at least one zone.\<close>

definition allocate_flyers :: "int \<Rightarrow> int list \<Rightarrow> int list" where
  "allocate_flyers flyers zone_addresses =
     (let flyers_per_route =
            map (flyers_for flyers (sum_list zone_addresses) (length zone_addresses)) zone_addresses;
          diff = flyers - sum_list flyers_per_route
      in if diff \<noteq> 0 then flyers_per_route[0 := flyers_per_route ! 0 + diff]
         else flyers_per_route)"



record route = route_data +
  route_id :: nat
  route_zone_id :: nat
  color :: string
  assigned_flyers :: int
  route_estimated_addresses :: int
  estimated_duration_min :: int
  google_maps_url :: string








section \<open>Geometry (area.py)\<close>






section \<open>Density estimator (density.py)\<close>

















section \<open>Partitioner (partition.py)\<close>

text \<open>
  The midpoint of an edge: of its geometry (\<open>mid\<close> stands for shapely's
  \<^verbatim>\<open>interpolate(0.5, normalized=True)\<close>), or the mean of the coordinates of its end nodes.
\<close>

definition edge_midpoint ::
  "((real \<times> real) list \<Rightarrow> real \<times> real) \<Rightarrow> graph \<Rightarrow> edge \<Rightarrow> error + real \<times> real" where
  "edge_midpoint mid G e =
     (case edge_geometry e of
        Some line \<Rightarrow> Inr (mid line)
      | None \<Rightarrow>
          (case node_coords G (edge_src e) of
             None \<Rightarrow> Inl KeyError
           | Some (xu, yu) \<Rightarrow>
               (case node_coords G (edge_dst e) of
                  None \<Rightarrow> Inl KeyError
                | Some (xv, yv) \<Rightarrow> Inr ((xu + xv) / 2, (yu + yv) / 2))))"

fun edge_midpoints ::
  "((real \<times> real) list \<Rightarrow> real \<times> real) \<Rightarrow> graph \<Rightarrow> edge list \<Rightarrow> error + (real \<times> real) list" where
  "edge_midpoints mid G [] = Inr []"
| "edge_midpoints mid G (e # es) =
     (case edge_midpoint mid G e of
        Inl err \<Rightarrow> Inl err
      | Inr pt \<Rightarrow>
          (case edge_midpoints mid G es of Inl err \<Rightarrow> Inl err | Inr pts \<Rightarrow> Inr (pt # pts)))"

definition edge_weight :: "string \<Rightarrow> edge \<Rightarrow> real" where
  "edge_weight balance_priority e =
     max (if balance_priority = ''density'' then real_of_int (edge_addresses e) else edge_length e) 1"

text \<open>The number of copies of each edge's midpoint in the input of the clustering.\<close>

definition repeats :: "real list \<Rightarrow> nat list" where
  "repeats weights =
     map (\<lambda>w. nat (max 1 (py_int (w / (sum_list weights / real (length weights)))))) weights"

text \<open>
  \<^verbatim>\<open>Counter(votes).most_common(1)[0][0]\<close>: the most frequent vote, the first one seen among
  equally frequent ones.  An edge without votes keeps the label 0 of \<^verbatim>\<open>np.zeros\<close>.
\<close>

definition most_common :: "nat list \<Rightarrow> nat" where
  "most_common votes =
     (case dict_keys votes of
        [] \<Rightarrow> 0
      | k # ks \<Rightarrow>
          fold (\<lambda>c best. if count_list votes c > count_list votes best then c else best) ks k)"

text \<open>
  The label of every edge.  \<open>kmeans points k\<close> stands for
  \<^verbatim>\<open>KMeans(n_clusters=k, random_state=42, n_init=10).fit_predict(points)\<close>, which needs
  at least \<open>k\<close> points.
\<close>

definition cluster_labels ::
  "((real \<times> real) list \<Rightarrow> nat \<Rightarrow> nat list) \<Rightarrow> (real \<times> real) list \<Rightarrow> real list \<Rightarrow> nat \<Rightarrow>
     error + nat list" where
  "cluster_labels kmeans points weights num_zones =
     (let X_weighted = concat (map (\<lambda>(pt, r). replicate r pt) (zip points (repeats weights)));
          edge_indices_weighted =
            concat (map (\<lambda>(i, r). replicate r i) (zip [0..<length points] (repeats weights)))
      in if num_zones = 0 \<or> length X_weighted < num_zones then Inl ValueError
         else Inr (map (\<lambda>i. most_common
                              (map snd (filter (\<lambda>(idx, c). idx = i)
                                 (zip edge_indices_weighted (kmeans X_weighted num_zones)))))
                     [0..<length points]))"

text \<open>\<^verbatim>\<open>G.edge_subgraph(edges).copy()\<close> for a list of \<open>(u, v, key)\<close>.\<close>

definition edge_triple :: "edge \<Rightarrow> node \<times> node \<times> nat" where
  "edge_triple e = (edge_src e, edge_dst e, edge_id e)"

definition edge_subgraph :: "graph \<Rightarrow> (node \<times> node \<times> nat) list \<Rightarrow> graph" where
  "edge_subgraph G es =
     G\<lparr>nodes := filter (\<lambda>(n, x, y). n \<in> set (concat (map (\<lambda>(u, v, k). [u, v]) es))) (nodes G),
       edges := filter (\<lambda>e. edge_triple e \<in> set es) (edges G)\<rparr>"

text \<open>\<^verbatim>\<open>G.subgraph(nodes).copy()\<close>: the subgraph induced by a set of nodes.\<close>

definition induced_subgraph :: "graph \<Rightarrow> node list \<Rightarrow> graph" where
  "induced_subgraph G ns =
     G\<lparr>nodes := filter (\<lambda>(n, x, y). n \<in> set ns) (nodes G),
       edges := filter (\<lambda>e. edge_src e \<in> set ns \<and> edge_dst e \<in> set ns) (edges G)\<rparr>"

text \<open>
  \<^verbatim>\<open>nx.weakly_connected_components(G)\<close>, from the nodes that are not yet in a component:
  the component of the first of them, then the components of the others.
\<close>

function components_from :: "graph \<Rightarrow> node list \<Rightarrow> node list list" where
  "components_from G [] = []"
| "components_from G (n # ns) =
     filter (has_path (to_undirected G) n) (node_ids G)
     # components_from G (filter (\<lambda>m. \<not> has_path (to_undirected G) n m) ns)"
  by pat_completeness auto
termination
  by (relation "measure (\<lambda>(G, ns). length ns)") (auto simp: less_Suc_eq_le)

definition weakly_connected_components :: "graph \<Rightarrow> node list list" where
  "weakly_connected_components G = components_from G (node_ids G)"

text \<open>\<^verbatim>\<open>max(components, key=len)\<close>: the first of the largest components.\<close>

definition largest :: "node list list \<Rightarrow> node list" where
  "largest components =
     fold (\<lambda>c best. if length c > length best then c else best) (tl components) (hd components)"

text \<open>The zone of one label: the subgraph of its edges, reduced to its largest component.\<close>

definition make_zone :: "graph \<Rightarrow> nat \<Rightarrow> (node \<times> node \<times> nat) list \<Rightarrow> graph" where
  "make_zone G zid es =
     (if length (edges (edge_subgraph G es)) > 0 \<and> \<not> is_weakly_connected (edge_subgraph G es) \<and>
         weakly_connected_components (edge_subgraph G es) \<noteq> []
      then induced_subgraph (edge_subgraph G es)
             (largest (weakly_connected_components (edge_subgraph G es)))
      else edge_subgraph G es)
     \<lparr>zone_id := Some zid\<rparr>"

definition zones_of_labels :: "graph \<Rightarrow> nat \<Rightarrow> nat list \<Rightarrow> graph list" where
  "zones_of_labels G num_zones labels =
     concat (map (\<lambda>zid.
        if map (edge_triple \<circ> fst) (filter (\<lambda>(e, c). c = zid) (zip (edges G) labels)) = [] then []
        else [make_zone G zid
                (map (edge_triple \<circ> fst) (filter (\<lambda>(e, c). c = zid) (zip (edges G) labels)))])
       [0..<num_zones])"

definition partition_graph_into_zones ::
  "((real \<times> real) list \<Rightarrow> nat \<Rightarrow> nat list) \<Rightarrow> ((real \<times> real) list \<Rightarrow> real \<times> real) \<Rightarrow> graph \<Rightarrow>
     nat \<Rightarrow> string \<Rightarrow> error + graph list" where
  "partition_graph_into_zones kmeans mid G num_zones balance_priority =
     (if num_zones = 1 then Inr [G]
      else case edge_midpoints mid G (edges G) of
        Inl err \<Rightarrow> Inl err
      | Inr points \<Rightarrow>
          (case cluster_labels kmeans points (map (edge_weight balance_priority) (edges G))
                  num_zones of
             Inl err \<Rightarrow> Inl err
           | Inr labels \<Rightarrow> Inr (zones_of_labels G num_zones labels)))"

section \<open>Concrete inputs\<close>

text \<open>
  Small road graphs on which the definitions are evaluated.  \<open>direct_path\<close> is the
  shortest path between two distinct adjacent nodes; it is used only on graphs in which
  any two connected nodes are adjacent, with equal edge lengths.
\<close>

definition mk_edge :: "node \<Rightarrow> node \<Rightarrow> real \<Rightarrow> string \<Rightarrow> edge" where
  "mk_edge u v l s =
     \<lparr>edge_src = u, edge_dst = v, edge_id = 0, length_m = Some l, name = Some (Str s),
      highway = Some (Str ''residential''), estimated_addresses = None, edge_geometry = None\<rparr>"

definition direct_path :: "graph \<Rightarrow> node \<Rightarrow> node \<Rightarrow> node list" where
  "direct_path G u v = (if u = v then [u] else [u, v])"

text \<open>
  Two one-way streets, \<open>3 \<rightarrow> 1\<close> and \<open>1 \<rightarrow> 2\<close>, on a straight line; node 1 lies at the
  mean of the node coordinates.
\<close>

definition fork_zone :: graph where
  "fork_zone =
     \<lparr>directed = True,
      nodes = [(1, 0, 0), (2, 1, 0), (3, -1, 0)],
      edges = [mk_edge 1 2 100 ''A Street'', mk_edge 3 1 100 ''B Street''],
      zone_id = Some 0\<rparr>"

text \<open>A block of three streets \<open>1 \<rightarrow> 2 \<rightarrow> 3 \<rightarrow> 1\<close>; the first two share their name.\<close>

definition triangle_zone :: graph where
  "triangle_zone =
     \<lparr>directed = True,
      nodes = [(1, 0, 0), (2, 4, 0), (3, 0, 4)],
      edges = [mk_edge 1 2 100 ''A Street'', mk_edge 2 3 100 ''A Street'',
               mk_edge 3 1 100 ''B Street''],
      zone_id = Some 0\<rparr>"

text \<open>The route of \<open>triangle_zone\<close> for walking from the default start, with return.\<close>

definition triangle_route :: route_data where
  "triangle_route =
     \<lparr>waypoints = [(0, 0), (0, 4), (4, 0), (0, 0)],
      geometry = LineString [(0, 0), (4, 0), (0, 4), (0, 0)],
      total_distance_m = 300,
      turn_by_turn =
        [\<lparr>instruction = ''Start on A Street'', distance_m = 200,
          street_name = ''A Street'', step = Some 1\<rparr>,
         \<lparr>instruction = ''Turn onto B Street'', distance_m = 100,
          street_name = ''B Street'', step = Some 2\<rparr>]\<rparr>"

text \<open>A route of 24 waypoints along a meridian.\<close>

definition meridian_waypoints :: "(real \<times> real) list" where
  "meridian_waypoints = map (\<lambda>i. (real i, 0)) [0..<24]"


definition no_format :: "real \<Rightarrow> string" where
  "no_format x = ''?''"





text \<open>Two streets that do not meet: what is left of a network when the road that joined
  them is filtered out.\<close>

definition split_graph :: graph where
  "split_graph =
     \<lparr>directed = True,
      nodes = [(1, 0, 0), (2, 1, 0), (3, 5, 5), (4, 6, 5)],
      edges = [mk_edge 1 2 100 ''A Street'', mk_edge 3 4 100 ''B Street''],
      zone_id = None\<rparr>"

section \<open>Properties of the router\<close>

subsection \<open>Auxiliary facts\<close>

lemma loop_body_iterations:
  "loop_body sp set_iter G st = Inr st' \<Longrightarrow> iterations st' = iterations st"
  by (auto simp: loop_body_def split: if_splits list.splits option.splits)

lemma dict_keys_set [simp]: "set (dict_keys xs) = set xs"
  by (simp add: dict_keys_def)

lemma wf_graph_iff:
  "wf_graph G \<longleftrightarrow> (\<forall>e \<in> set (edges G). edge_src e \<in> set (node_ids G) \<and> edge_dst e \<in> set (node_ids G))"
  by (simp add: wf_graph_def list_all_iff)

lemma neighbors_in_nodes:
  "wf_graph G \<Longrightarrow> m \<in> set (neighbors G n) \<Longrightarrow> m \<in> set (node_ids G)"
  by (auto simp: neighbors_def wf_graph_iff split: if_splits)

lemma edge_key_sym: "edge_key a b = edge_key b a"
  by (auto simp: edge_key_def min_def max_def)

lemma neighbors_edge_key:
  "m \<in> set (neighbors G n) \<Longrightarrow> edge_key n m \<in> edge_keys G"
  by (auto simp: neighbors_def edge_keys_def edge_key_sym split: if_splits)

lemma nodes_with_unvisited_in_nodes:
  "wf_graph G \<Longrightarrow> set (nodes_with_unvisited G st) \<subseteq> set (node_ids G)"
  by (auto simp: nodes_with_unvisited_def wf_graph_iff)

lemma nodes_with_unvisited_Nil:
  "nodes_with_unvisited G st = [] \<Longrightarrow> edge_keys G \<subseteq> visited_edges st"
  by (auto simp: nodes_with_unvisited_def edge_keys_def filter_empty_conv)

lemma pick_target_Some:
  "pick_target sp G cur ts best = Some (t, p) \<Longrightarrow>
     best = Some (t, p) \<or> (t \<in> set ts \<and> has_path G cur t \<and> p = sp G cur t)"
proof (induction ts arbitrary: best)
  case Nil
  then show ?case by simp
next
  case (Cons a ts)
  show ?case
  proof (cases "has_path G cur a \<and> (case best of None \<Rightarrow> True
                 | Some (_, best_path) \<Rightarrow> length (sp G cur a) < length best_path)")
    case True
    then have "pick_target sp G cur ts (Some (a, sp G cur a)) = Some (t, p)"
      using Cons.prems by simp
    from Cons.IH[OF this] True show ?thesis by auto
  next
    case False
    then have "pick_target sp G cur ts best = Some (t, p)"
      using Cons.prems by (simp split: if_splits)
    from Cons.IH[OF this] show ?thesis by auto
  qed
qed

lemma pick_target_None:
  "pick_target sp G cur ts best = None \<Longrightarrow> best = None \<and> (\<forall>t \<in> set ts. \<not> has_path G cur t)"
proof (induction ts arbitrary: best)
  case Nil
  then show ?case by simp
next
  case (Cons a ts)
  show ?case
  proof (cases "has_path G cur a \<and> (case best of None \<Rightarrow> True
                 | Some (_, best_path) \<Rightarrow> length (sp G cur a) < length best_path)")
    case True
    then have "pick_target sp G cur ts (Some (a, sp G cur a)) = None"
      using Cons.prems by simp
    from Cons.IH[OF this] show ?thesis by simp
  next
    case False
    then have *: "pick_target sp G cur ts best = None"
      using Cons.prems by (simp split: if_splits)
    from Cons.IH[OF *] have "best = None" and "\<forall>t \<in> set ts. \<not> has_path G cur t" by auto
    with False show ?thesis by simp
  qed
qed

lemma zip_tl_append: "set (zip r (tl r)) \<subseteq> set (zip (r @ xs) (tl (r @ xs)))"
proof (cases r)
  case Nil then show ?thesis by simp
next
  case (Cons a as)
  have "set (zip (a # as) as) \<subseteq> set (zip (a # as @ xs) (as @ xs))"
    by (induction as arbitrary: a) auto
  then show ?thesis using Cons by simp
qed

lemma traversed_append: "traversed r \<subseteq> traversed (r @ xs)"
  unfolding traversed_def using zip_tl_append[of r xs] by (rule image_mono)

lemma zip_tl_snoc: "r \<noteq> [] \<Longrightarrow> (last r, n) \<in> set (zip (r @ [n]) (tl (r @ [n])))"
proof (induction r)
  case Nil then show ?case by simp
next
  case (Cons a as)
  then show ?case by (cases as) auto
qed

lemma traversed_snoc:
  "r \<noteq> [] \<Longrightarrow> edge_key (last r) n \<in> traversed (r @ [n])"
  unfolding traversed_def using zip_tl_snoc[of r n] by (metis (mono_tags, lifting) case_prod_conv image_eqI)

lemma walk_inv_iterations [simp]:
  "walk_inv s G (st\<lparr>iterations := k\<rparr>) = walk_inv s G st"
  by (simp add: walk_inv_def)

lemma contractD:
  assumes "shortest_path_contract sp G" "u \<in> set (node_ids G)" "v \<in> set (node_ids G)"
    "has_path G u v"
  shows "sp G u v \<noteq> []" "hd (sp G u v) = u" "last (sp G u v) = v"
    "set (sp G u v) \<subseteq> set (node_ids G)"
  using assms unfolding shortest_path_contract_def by blast+

lemma bridge_route:
  assumes "r \<noteq> []" "p \<noteq> []" "hd p = last r"
  shows "last (r @ tl p) = last p" "hd (r @ tl p) = hd r"
  using assms by (cases p; cases "tl p"; auto)+

lemma loop_body_step_inv:
  assumes wf: "wf_graph G" and inv: "walk_inv s G st"
    and nb: "unvisited_neighbors G st = n # ns"
  shows "walk_inv s G (st\<lparr>route := route st @ [n],
            visited_edges := insert (edge_key (current st) n) (visited_edges st),
            current := n\<rparr>)"
proof -
  have n_nb: "n \<in> set (neighbors G (current st))"
    using nb unfolding unvisited_neighbors_def
    by (metis filter_is_subset list.set_intros(1) subsetD)
  have n_node: "n \<in> set (node_ids G)" using neighbors_in_nodes[OF wf n_nb] .
  have key: "edge_key (current st) n \<in> edge_keys G" using neighbors_edge_key[OF n_nb] .
  have r: "route st \<noteq> []" "last (route st) = current st" using inv by (auto simp: walk_inv_def)
  have trav: "edge_key (current st) n \<in> traversed (route st @ [n])"
    using traversed_snoc[OF r(1), of n] r(2) by simp
  have old: "visited_edges st \<subseteq> traversed (route st @ [n])"
    using inv traversed_append[of "route st" "[n]"] by (auto simp: walk_inv_def)
  show ?thesis
    using inv n_node key trav old by (auto simp: walk_inv_def)
qed

lemma loop_body_bridge_inv:
  assumes wf: "wf_graph G" and c: "shortest_path_contract sp G" and si: "set_iter_contract set_iter"
    and inv: "walk_inv s G st"
    and pk: "pick_target sp G (current st) (set_iter (nodes_with_unvisited G st)) None = Some (t, p)"
  shows "walk_inv s G (st\<lparr>route := route st @ tl p, current := t\<rparr>)"
proof -
  from pick_target_Some[OF pk]
  have t: "t \<in> set (set_iter (nodes_with_unvisited G st))" and hp: "has_path G (current st) t"
    and p: "p = sp G (current st) t" by auto
  have t_node: "t \<in> set (node_ids G)"
    using t si nodes_with_unvisited_in_nodes[OF wf, of st] by (auto simp: set_iter_contract_def)
  have cur: "current st \<in> set (node_ids G)" using inv by (simp add: walk_inv_def)
  note cd = contractD[OF c cur t_node hp, folded p]
  have r: "route st \<noteq> []" "last (route st) = current st" using inv by (auto simp: walk_inv_def)
  have l: "last (route st @ tl p) = t" "hd (route st @ tl p) = hd (route st)"
    using bridge_route[OF r(1) cd(1)] cd(2,3) r(2) by auto
  have sub: "set (tl p) \<subseteq> set (node_ids G)"
    using cd(4) by (meson list.set_sel(2) cd(1) subsetD subsetI)
  have old: "visited_edges st \<subseteq> traversed (route st @ tl p)"
    using inv traversed_append[of "route st" "tl p"] by (auto simp: walk_inv_def)
  show ?thesis
    using inv l sub old t_node by (auto simp: walk_inv_def)
qed

lemma loop_body_inv:
  assumes "wf_graph G" "shortest_path_contract sp G" "set_iter_contract set_iter"
    "walk_inv s G st" "loop_body sp set_iter G st = Inr st'"
  shows "walk_inv s G st'"
proof (cases "unvisited_neighbors G st")
  case (Cons n ns)
  then have "st' = st\<lparr>route := route st @ [n],
            visited_edges := insert (edge_key (current st) n) (visited_edges st),
            current := n\<rparr>"
    using assms(5) by (auto simp: loop_body_def split: if_splits)
  then show ?thesis using loop_body_step_inv[OF assms(1,4) Cons] by simp
next
  case Nil
  then obtain t p where
    "pick_target sp G (current st) (set_iter (nodes_with_unvisited G st)) None = Some (t, p)"
    "st' = st\<lparr>route := route st @ tl p, current := t\<rparr>"
    using assms(5) by (auto simp: loop_body_def split: if_splits option.splits)
  then show ?thesis using loop_body_bridge_inv[OF assms(1-4)] by simp
qed

text \<open>What a stop inside the loop body tells.\<close>

lemma loop_body_stop:
  assumes "shortest_path_contract sp G" "set_iter_contract set_iter" "wf_graph G"
    "walk_inv s G st" "loop_body sp set_iter G st = Inl (r, st')"
  shows "st' = st" "r = NothingLeft \<or> r = Unreachable"
    "r = NothingLeft \<Longrightarrow> edge_keys G \<subseteq> visited_edges st"
    "r = Unreachable \<Longrightarrow> \<exists>t \<in> set (node_ids G). \<not> has_path G (current st) t"
proof -
  have cur: "current st \<in> set (node_ids G)" using assms(4) by (simp add: walk_inv_def)
  show "st' = st" using assms(5)
    by (auto simp: loop_body_def split: if_splits list.splits option.splits)
  show "r = NothingLeft \<or> r = Unreachable" using assms(5) cur
    by (auto simp: loop_body_def split: if_splits list.splits option.splits)
  show "edge_keys G \<subseteq> visited_edges st" if "r = NothingLeft"
  proof -
    have "set_iter (nodes_with_unvisited G st) = []"
      using that assms(5) cur
      by (auto simp: loop_body_def split: if_splits list.splits option.splits)
    then have "nodes_with_unvisited G st = []"
      using assms(2) by (metis set_iter_contract_def set_empty)
    then show ?thesis by (rule nodes_with_unvisited_Nil)
  qed
  show "\<exists>t \<in> set (node_ids G). \<not> has_path G (current st) t" if "r = Unreachable"
  proof -
    let ?ts = "set_iter (nodes_with_unvisited G st)"
    have ne: "?ts \<noteq> []" using that assms(5) cur
      by (auto simp: loop_body_def split: if_splits list.splits option.splits)
    have sub: "set ?ts \<subseteq> set (node_ids G)"
      using assms(2) nodes_with_unvisited_in_nodes[OF assms(3), of st]
      by (auto simp: set_iter_contract_def)
    consider "pick_target sp G (current st) ?ts None = None"
      | t where "pick_target sp G (current st) ?ts None = Some (t, [])"
      using that assms(5) cur
      by (auto simp: loop_body_def split: if_splits list.splits option.splits)
    then show ?thesis
    proof cases
      case 1
      from pick_target_None[OF 1] have "\<forall>t \<in> set ?ts. \<not> has_path G (current st) t" by simp
      moreover obtain t where "t \<in> set ?ts" using ne by (cases ?ts) auto
      ultimately show ?thesis using sub by blast
    next
      case 2
      from pick_target_Some[OF 2] have t: "t \<in> set ?ts" "has_path G (current st) t"
        "sp G (current st) t = []" by auto
      then have False using contractD(1)[OF assms(1) cur _ t(2)] sub by blast
      then show ?thesis ..
    qed
  qed
qed

lemma cover_loop_inv:
  "wf_graph G \<Longrightarrow> shortest_path_contract sp G \<Longrightarrow> set_iter_contract set_iter \<Longrightarrow>
   walk_inv s G st \<Longrightarrow> cover_loop sp set_iter G st = (r, st') \<Longrightarrow>
     walk_inv s G st' \<and> r \<noteq> Raised \<and>
     (r = Covered \<longrightarrow> \<not> card (visited_edges st') < length (edges G)) \<and>
     (r = NothingLeft \<longrightarrow> edge_keys G \<subseteq> visited_edges st') \<and>
     (r = Unreachable \<longrightarrow> (\<exists>t \<in> set (node_ids G). \<not> has_path G (current st') t))"
proof (induction sp set_iter G st rule: cover_loop.induct)
  case (1 sp set_iter G st)
  note wf = "1.prems"(1) and c = "1.prems"(2) and si = "1.prems"(3)
    and inv = "1.prems"(4) and run = "1.prems"(5)
  let ?st1 = "st\<lparr>iterations := iterations st + 1\<rparr>"
  have inv1: "walk_inv s G ?st1" using inv by simp
  show ?case
  proof (cases "card (visited_edges st) < length (edges G)")
    case False
    then have "r = Covered" "st' = st" using run by (subst (asm) cover_loop.simps, simp)+
    then show ?thesis using inv False by simp
  next
    case more: True
    show ?thesis
    proof (cases "iterations st < max_iterations G")
      case False
      then have "r = CapReached" "st' = st"
        using run more by (subst (asm) cover_loop.simps, simp)+
      then show ?thesis using inv by simp
    next
      case True
      show ?thesis
      proof (cases "loop_body sp set_iter G ?st1")
        case (Inl stopped)
        then have body: "loop_body sp set_iter G ?st1 = Inl (r, st')"
          using run more True by (subst (asm) cover_loop.simps) simp
        note stop = loop_body_stop[OF c si wf inv1 body]
        have "walk_inv s G st'" using stop(1) inv1 by simp
        moreover have "r = NothingLeft \<longrightarrow> edge_keys G \<subseteq> visited_edges st'"
          using stop(1,3) by simp
        moreover have "r = Unreachable \<longrightarrow> (\<exists>t \<in> set (node_ids G). \<not> has_path G (current st') t)"
          using stop(1,4) by simp
        ultimately show ?thesis using stop(2) by auto
      next
        case (Inr st2)
        have inv2: "walk_inv s G st2" using loop_body_inv[OF wf c si inv1 Inr] .
        have run2: "cover_loop sp set_iter G st2 = (r, st')"
          using run more True Inr by (subst (asm) cover_loop.simps) simp
        show ?thesis using "1.IH"[OF _ _ Inr wf c si inv2 run2] more True by simp
      qed
    qed
  qed
qed

lemma card_edge_keys: "card (edge_keys G) \<le> length (edges G)"
  unfolding edge_keys_def by (meson card_image_le card_length le_trans List.finite_set)

lemma all_keys_visited:
  assumes "finite V" "V \<subseteq> edge_keys G" "\<not> card V < length (edges G)"
  shows "edge_keys G \<subseteq> V"
proof -
  have "finite (edge_keys G)" by (simp add: edge_keys_def)
  moreover have "card (edge_keys G) \<le> card V" using assms(3) card_edge_keys[of G] by linarith
  ultimately have "V = edge_keys G" using assms(2) by (simp add: card_seteq)
  then show ?thesis by simp
qed

lemma edge_key_eq:
  "edge_key a b = edge_key c d \<Longrightarrow> (a = c \<and> b = d) \<or> (a = d \<and> b = c)"
  by (auto simp: edge_key_def min_def max_def split: if_splits)

lemma keys_traversed_covers:
  assumes "edge_keys G \<subseteq> traversed r"
  shows "covers_all_edges r G"
  unfolding covers_all_edges_def list_all_iff
proof
  fix e assume "e \<in> set (edges G)"
  then have "edge_key (edge_src e) (edge_dst e) \<in> traversed r"
    using assms by (auto simp: edge_keys_def)
  then obtain a b where ab: "(a, b) \<in> set (zip r (tl r))"
    "edge_key a b = edge_key (edge_src e) (edge_dst e)"
    by (auto simp: traversed_def)
  from edge_key_eq[OF ab(2)] ab(1) show "edge_traversed r e"
    by (auto simp: edge_traversed_def)
qed

lemma key_of_merge_attrs [simp]: "key_of (merge_attrs d e) = key_of d"
  by (simp add: key_of_def merge_attrs_def)

lemma same_undirected_edge_key: "same_undirected_edge d e \<Longrightarrow> key_of d = key_of e"
  by (auto simp: same_undirected_edge_def key_of_def edge_key_sym)

lemma keys_add_undirected_edge:
  "key_of ` set (add_undirected_edge e ds) = insert (key_of e) (key_of ` set ds)"
  by (induction ds) (auto simp: same_undirected_edge_key)

lemma keys_foldl_add:
  "key_of ` set (foldl (\<lambda>acc e. add_undirected_edge e acc) acc es) =
     key_of ` set acc \<union> key_of ` set es"
  by (induction es arbitrary: acc) (auto simp: keys_add_undirected_edge)

lemma edge_keys_to_undirected [simp]: "edge_keys (to_undirected G) = edge_keys G"
  using keys_foldl_add[of "[]" "edges G"]
  by (simp add: edge_keys_def to_undirected_def key_of_def[abs_def])

lemma node_ids_to_undirected [simp]: "node_ids (to_undirected G) = node_ids G"
  by (simp add: node_ids_def to_undirected_def)

lemma wf_graph_keys:
  "wf_graph G \<longleftrightarrow> (\<forall>k \<in> edge_keys G. fst k \<in> set (node_ids G) \<and> snd k \<in> set (node_ids G))"
  by (auto simp: wf_graph_iff edge_keys_def edge_key_def min_def max_def)

lemma wf_graph_to_undirected [simp]: "wf_graph (to_undirected G) = wf_graph G"
  by (simp add: wf_graph_keys)

lemma route_graph_simps [simp]:
  "edge_keys (route_graph m G) = edge_keys G"
  "node_ids (route_graph m G) = node_ids G"
  "wf_graph (route_graph m G) = wf_graph G"
  by (simp_all add: route_graph_def)

lemma walk_inv_init: "s \<in> set (node_ids G) \<Longrightarrow> walk_inv s G (init_walk s)"
  by (simp add: walk_inv_def init_walk_def)

lemma return_leg_prefix: "\<exists>xs. return_leg sp G s rts st = route st @ xs"
  by (simp add: return_leg_def)

lemma nearest_scan_Some:
  "ns \<noteq> [] \<or> best \<noteq> None \<Longrightarrow> \<exists>d n. nearest_scan ns p best = Some (d, n) \<and>
      (n \<in> fst ` set ns \<or> (\<exists>d'. best = Some (d', n)))"
proof (induction ns p best rule: nearest_scan.induct)
  case (1 point best)
  then show ?case by auto
next
  case (2 n node_lng node_lat rest lat lng best)
  let ?b = "(case best of
          None \<Rightarrow> Some ((node_lat - lat)\<^sup>2 + (node_lng - lng)\<^sup>2, n)
        | Some (min_dist, nearest) \<Rightarrow>
            if (node_lat - lat)\<^sup>2 + (node_lng - lng)\<^sup>2 < min_dist
            then Some ((node_lat - lat)\<^sup>2 + (node_lng - lng)\<^sup>2, n)
            else Some (min_dist, nearest))"
  have ne: "?b \<noteq> None" by (auto split: option.splits)
  from "2.IH" ne obtain d m where res: "nearest_scan rest (lat, lng) ?b = Some (d, m)"
    and m: "m \<in> fst ` set rest \<or> (\<exists>d'. ?b = Some (d', m))" by blast
  have "m \<in> fst ` set ((n, node_lng, node_lat) # rest) \<or> (\<exists>d'. best = Some (d', m))"
    using m by (auto split: option.splits if_splits)
  then show ?case using res by simp
qed

lemma find_nearest_node_Some:
  "nodes G \<noteq> [] \<Longrightarrow> \<exists>s. find_nearest_node G p = Some s \<and> s \<in> set (node_ids G)"
  using nearest_scan_Some[of "nodes G" None p]
  by (auto simp: find_nearest_node_def node_ids_def)

lemma choose_start_Some:
  "nodes G \<noteq> [] \<Longrightarrow> \<exists>s. choose_start G start_point = Inr (Some s) \<and> s \<in> set (node_ids G)"
  using find_nearest_node_Some[of G]
  by (cases start_point) (auto simp: choose_start_def)

lemma node_coords_Some:
  "n \<in> set (node_ids G) \<Longrightarrow> \<exists>lng lat. node_coords G n = Some (lng, lat)"
proof -
  assume "n \<in> set (node_ids G)"
  then have "map_of (nodes G) n \<noteq> None"
    by (simp add: map_of_eq_None_iff node_ids_def)
  then show ?thesis by (cases "map_of (nodes G) n") (auto simp: node_coords_def)
qed

lemma walk_waypoints_ok:
  "set ns \<subseteq> set (node_ids zone) \<Longrightarrow>
     \<exists>wps total. walk_waypoints zone prev ns acc t = Inr (acc @ wps, total) \<and>
        length wps = length ns \<and>
        (\<forall>n lng lat rest. ns = n # rest \<longrightarrow> node_coords zone n = Some (lng, lat) \<longrightarrow> hd wps = (lat, lng))"
proof (induction ns arbitrary: prev acc t)
  case Nil
  then show ?case by simp
next
  case (Cons n ns)
  then obtain lng lat where co: "node_coords zone n = Some (lng, lat)"
    using node_coords_Some[of n zone] by auto
  let ?t = "(case prev of
               None \<Rightarrow> t
             | Some prev_node \<Rightarrow>
                 (case first_edge_data zone prev_node n of
                    None \<Rightarrow> t
                  | Some e \<Rightarrow> t + edge_length e))"
  from Cons.IH[of "Some n" "acc @ [(lat, lng)]" ?t] Cons.prems
  obtain wps total where
    "walk_waypoints zone (Some n) ns (acc @ [(lat, lng)]) ?t = Inr ((acc @ [(lat, lng)]) @ wps, total)"
    "length wps = length ns" by auto
  then have "walk_waypoints zone prev (n # ns) acc t = Inr (acc @ ((lat, lng) # wps), total)"
    "length ((lat, lng) # wps) = length (n # ns)"
    using co by simp_all
  moreover have "\<forall>n' lng' lat' rest. n # ns = n' # rest \<longrightarrow> node_coords zone n' = Some (lng', lat')
     \<longrightarrow> hd ((lat, lng) # wps) = (lat', lng')"
    using co by auto
  ultimately show ?case by blast
qed

lemma wf_graph_nodes: "wf_graph G \<Longrightarrow> edges G \<noteq> [] \<Longrightarrow> nodes G \<noteq> []"
  by (cases "edges G") (auto simp: wf_graph_def node_ids_def)

lemma simple_route_walk:
  assumes "wf_graph G" "shortest_path_contract sp G" "set_iter_contract set_iter"
    "start_node \<in> set (node_ids G)"
  shows "\<exists>walk. generate_simple_route sp set_iter G start_node return_to_start = Inr walk \<and>
           walk \<noteq> [] \<and> hd walk = start_node \<and> set walk \<subseteq> set (node_ids G)"
proof -
  obtain r st where run: "cover_loop sp set_iter G (init_walk start_node) = (r, st)"
    by (cases "cover_loop sp set_iter G (init_walk start_node)")
  from cover_loop_inv[OF assms(1-3) walk_inv_init[OF assms(4)] run]
  have inv: "walk_inv start_node G st" and nr: "r \<noteq> Raised" by auto
  have gen: "generate_simple_route sp set_iter G start_node return_to_start =
      Inr (return_leg sp G start_node return_to_start st)"
    using run nr by (cases r) (simp_all add: generate_simple_route_def)
  have r: "route st \<noteq> []" "hd (route st) = start_node" "set (route st) \<subseteq> set (node_ids G)"
    "current st \<in> set (node_ids G)"
    using inv by (auto simp: walk_inv_def)
  have "set (return_leg sp G start_node return_to_start st) \<subseteq> set (node_ids G)"
  proof (cases "return_to_start \<and> current st \<noteq> start_node \<and> has_path G (current st) start_node")
    case True
    then have "set (sp G (current st) start_node) \<subseteq> set (node_ids G)"
      "sp G (current st) start_node \<noteq> []"
      using contractD[OF assms(2) r(4) assms(4)] by auto
    then have "set (tl (sp G (current st) start_node)) \<subseteq> set (node_ids G)"
      by (meson list.set_sel(2) subsetD subsetI)
    then show ?thesis using True r(3) by (simp add: return_leg_def)
  next
    case False
    then show ?thesis using r(3) by (auto simp: return_leg_def)
  qed
  moreover have "return_leg sp G start_node return_to_start st \<noteq> []"
    "hd (return_leg sp G start_node return_to_start st) = start_node"
    using r(1,2) by (auto simp: return_leg_def)
  ultimately show ?thesis using gen by simp
qed

lemma cover_loop_iterations_le:
  "iterations st \<le> max_iterations G \<Longrightarrow>
     iterations (snd (cover_loop sp set_iter G st)) \<le> max_iterations G"
proof (induction sp set_iter G st rule: cover_loop.induct)
  case (1 sp set_iter G st)
  show ?case
  proof (cases "card (visited_edges st) < length (edges G) \<and> iterations st < max_iterations G")
    case False
    then show ?thesis using "1.prems" by (subst cover_loop.simps) auto
  next
    case True
    show ?thesis
    proof (cases "loop_body sp set_iter G (st\<lparr>iterations := iterations st + 1\<rparr>)")
      case (Inl stopped)
      then have "loop_body sp set_iter G (st\<lparr>iterations := iterations st + 1\<rparr>) = Inl stopped" .
      moreover have "iterations (snd stopped) = iterations st + 1"
        using Inl by (auto simp: loop_body_def split: if_splits list.splits option.splits)
      ultimately show ?thesis using True by (subst cover_loop.simps) auto
    next
      case (Inr st')
      have "iterations st' = iterations st + 1"
        using loop_body_iterations[OF Inr] by simp
      then have "iterations (snd (cover_loop sp set_iter G st')) \<le> max_iterations G"
        using "1.IH"[OF _ _ Inr] True by auto
      then show ?thesis using True Inr by (subst cover_loop.simps) auto
    qed
  qed
qed

lemma triangle_route_eval:
  "generate_route_for_zone direct_path remdups triangle_zone None True ''walking'' =
     Inr triangle_route"
  by code_simp

lemma set_iter_contract_remdups: "set_iter_contract remdups"
  by (simp add: set_iter_contract_def)

lemma direct_path_contract: "shortest_path_contract direct_path G"
  by (simp add: shortest_path_contract_def direct_path_def)

lemma has_path_arc: "(u, v) \<in> set (arcs G) \<Longrightarrow> has_path G u v"
  by (simp add: has_path_def r_into_trancl')

lemma strongly_connected_adjacent:
  "list_all (\<lambda>u. list_all (\<lambda>v. u = v \<or> (u, v) \<in> set (arcs G)) (node_ids G)) (node_ids G)
     \<Longrightarrow> strongly_connected G"
  unfolding strongly_connected_def list_all_iff
  by (metis has_path_arc has_path_def)

lemma merge_directions_names:
  "distinct_adj (map street_name merged) \<Longrightarrow>
     distinct_adj (map street_name (merge_directions merged ds))"
proof (induction ds arbitrary: merged)
  case Nil
  then show ?case by simp
next
  case (Cons d ds)
  show ?case
  proof (cases "merged \<noteq> [] \<and> street_name (last merged) = street_name d")
    case True
    let ?m = "butlast merged @ [(last merged)\<lparr>distance_m := distance_m (last merged) + distance_m d\<rparr>]"
    have "map street_name ?m = map street_name (butlast merged @ [last merged])" by simp
    also have "\<dots> = map street_name merged" using True by simp
    finally have "distinct_adj (map street_name ?m)" using Cons.prems by simp
    from Cons.IH[OF this] show ?thesis using True by simp
  next
    case False
    have "distinct_adj (map street_name (merged @ [d]))"
      using False Cons.prems by (auto simp: distinct_adj_append_iff last_map hd_map)
    from Cons.IH[OF this] show ?thesis using False by auto
  qed
qed

lemma merge_directions_distance:
  "sum_list (map distance_m (merge_directions merged ds)) =
     sum_list (map distance_m merged) + sum_list (map distance_m ds)"
proof (induction ds arbitrary: merged)
  case Nil
  then show ?case by simp
next
  case (Cons d ds)
  show ?case
  proof (cases "merged \<noteq> [] \<and> street_name (last merged) = street_name d")
    case True
    let ?m = "butlast merged @ [(last merged)\<lparr>distance_m := distance_m (last merged) + distance_m d\<rparr>]"
    have "sum_list (map distance_m merged) =
        sum_list (map distance_m (butlast merged @ [last merged]))" using True by simp
    then have "sum_list (map distance_m ?m) = sum_list (map distance_m merged) + distance_m d"
      by simp
    then show ?thesis using True Cons.IH[of ?m] by simp
  next
    case False
    then show ?thesis using Cons.IH[of "merged @ [d]"] by auto
  qed
qed

lemma number_steps_names [simp]:
  "map street_name (number_steps i ds) = map street_name ds"
  by (induction ds arbitrary: i) auto

lemma number_steps_distance [simp]:
  "map distance_m (number_steps i ds) = map distance_m ds"
  by (induction ds arbitrary: i) auto

lemma directions_from_distance:
  "map distance_m (directions_from G i ns) = map distance_m (directions_from G j ns)"
proof (induction G i ns arbitrary: j rule: directions_from.induct)
  case (1 G i a b rest)
  from "1.IH"[of "Suc j"] show ?case by (auto split: option.splits)
qed simp_all

lemma walk_waypoints_total:
  "walk_waypoints zone prev ns acc t = Inr (wps, tdist) \<Longrightarrow>
     tdist = t + sum_list (map distance_m
               (directions_from zone i (case prev of None \<Rightarrow> ns | Some p \<Rightarrow> p # ns)))"
proof (induction ns arbitrary: prev acc t i)
  case Nil
  then show ?case by (cases prev) auto
next
  case (Cons n ns)
  from Cons.prems obtain lng lat where co: "node_coords zone n = Some (lng, lat)"
    by (auto split: option.splits)
  let ?t = "(case prev of
               None \<Rightarrow> t
             | Some prev_node \<Rightarrow>
                 (case first_edge_data zone prev_node n of
                    None \<Rightarrow> t
                  | Some e \<Rightarrow> t + edge_length e))"
  have "walk_waypoints zone (Some n) ns (acc @ [(lat, lng)]) ?t = Inr (wps, tdist)"
    using Cons.prems co by simp
  from Cons.IH[OF this, of "Suc i"]
  have tot: "tdist = ?t + sum_list (map distance_m (directions_from zone (Suc i) (n # ns)))"
    by simp
  show ?case
  proof (cases prev)
    case None
    then show ?thesis using tot directions_from_distance[of zone i "n # ns" "Suc i"] by simp
  next
    case (Some p)
    then show ?thesis using tot by (auto split: option.splits)
  qed
qed

section \<open>The claims about the router\<close>

text \<open>
  C2, as the claim states it, fails in driving mode: \<open>fork_zone\<close> is weakly connected,
  node 1 is the start node that \<^verbatim>\<open>generate_route_for_zone\<close> selects, and the walk on the
  directed zone stops after two iterations (far below the cap of 106) because no node
  with an unvisited edge can be reached from node 2.  The walk is \<open>[1, 2]\<close>; the edge
  from 3 to 1 is not visited.
\<close>

theorem walk_edge_coverage_counterexample:
  "is_weakly_connected fork_zone \<and>
   choose_start fork_zone None = Inr (Some 1) \<and>
   fst (cover_loop direct_path remdups (route_graph ''driving'' fork_zone) (init_walk 1)) = Unreachable \<and>
   iterations (snd (cover_loop direct_path remdups (route_graph ''driving'' fork_zone) (init_walk 1)))
     < max_iterations (route_graph ''driving'' fork_zone) \<and>
   generate_simple_route direct_path remdups (route_graph ''driving'' fork_zone) 1 False = Inr [1, 2] \<and>
   \<not> covers_all_edges [1, 2] fork_zone"
  by code_simp

text \<open>
  C2 (as amended).  The walk of \<^verbatim>\<open>generate_simple_route\<close> on the graph that the router
  walks (the undirected projection of the zone for walking, the directed zone itself
  otherwise) visits every edge of the zone at least once, whenever the zone is weakly
  connected (walking) or strongly connected (driving) and the loop does not stop at the
  iteration cap.  Parallel edges are covered: an edge is visited when its two endpoints
  are consecutive in the walk.
\<close>

theorem walk_covers_zone_edges:
  assumes wf: "wf_graph zone"
    and start: "start_node \<in> set (node_ids zone)"
    and c: "shortest_path_contract sp (route_graph travel_mode zone)"
    and si: "set_iter_contract set_iter"
    and conn: "if travel_mode = ''walking'' then is_weakly_connected zone
               else strongly_connected zone"
    and cap: "fst (cover_loop sp set_iter (route_graph travel_mode zone) (init_walk start_node))
               \<noteq> CapReached"
  shows "\<exists>walk. generate_simple_route sp set_iter (route_graph travel_mode zone) start_node
             return_to_start = Inr walk \<and> covers_all_edges walk zone"
proof -
  let ?G = "route_graph travel_mode zone"
  have sc: "strongly_connected ?G"
    using conn by (auto simp: route_graph_def is_weakly_connected_def split: if_splits)
  have wfG: "wf_graph ?G" using wf by simp
  have startG: "start_node \<in> set (node_ids ?G)" using start by simp
  obtain r st where run: "cover_loop sp set_iter ?G (init_walk start_node) = (r, st)"
    by (cases "cover_loop sp set_iter ?G (init_walk start_node)")
  note facts = cover_loop_inv[OF wfG c si walk_inv_init[OF startG] run]
  have inv: "walk_inv start_node ?G st" and nr: "r \<noteq> Raised" using facts by auto
  have cur: "current st \<in> set (node_ids ?G)" using inv by (simp add: walk_inv_def)
  have "r \<noteq> Unreachable"
  proof
    assume "r = Unreachable"
    then obtain t where "t \<in> set (node_ids ?G)" "\<not> has_path ?G (current st) t"
      using facts by auto
    then show False using sc cur by (auto simp: strongly_connected_def list_all_iff)
  qed
  moreover have "r \<noteq> CapReached" using cap run by simp
  ultimately have "r = Covered \<or> r = NothingLeft" using nr by (cases r) auto
  then have "edge_keys ?G \<subseteq> visited_edges st"
  proof
    assume "r = Covered"
    then have "\<not> card (visited_edges st) < length (edges ?G)" using facts by simp
    then show ?thesis using inv all_keys_visited[of "visited_edges st" ?G]
      by (simp add: walk_inv_def)
  next
    assume "r = NothingLeft"
    then show ?thesis using facts by simp
  qed
  then have "edge_keys zone \<subseteq> traversed (route st)"
    using inv by (auto simp: walk_inv_def)
  moreover obtain xs where leg: "return_leg sp ?G start_node return_to_start st = route st @ xs"
    using return_leg_prefix by blast
  ultimately have "edge_keys zone \<subseteq> traversed (return_leg sp ?G start_node return_to_start st)"
    using traversed_append[of "route st" xs] by auto
  then have "covers_all_edges (return_leg sp ?G start_node return_to_start st) zone"
    by (rule keys_traversed_covers)
  moreover have "generate_simple_route sp set_iter ?G start_node return_to_start =
      Inr (return_leg sp ?G start_node return_to_start st)"
    using run nr by (cases r) (simp_all add: generate_simple_route_def)
  ultimately show ?thesis by blast
qed

theorem walk_covers_zone_edges_witness:
  "generate_simple_route direct_path remdups (route_graph ''walking'' triangle_zone) 1 False
     = Inr [1, 2, 3, 1] \<and> covers_all_edges [1, 2, 3, 1] triangle_zone \<and>
   generate_simple_route direct_path remdups (route_graph ''driving'' triangle_zone) 2 True
     = Inr [2, 3, 1, 2] \<and> covers_all_edges [2, 3, 1, 2] triangle_zone"
proof -
  have wf: "wf_graph triangle_zone" by code_simp
  have start: "1 \<in> set (node_ids triangle_zone)" "2 \<in> set (node_ids triangle_zone)"
    by code_simp+
  have "strongly_connected (to_undirected triangle_zone)"
    by (rule strongly_connected_adjacent) code_simp
  then have walking: "if ''walking'' = ''walking'' then is_weakly_connected triangle_zone
               else strongly_connected triangle_zone"
    by (simp add: is_weakly_connected_def)
  have "strongly_connected triangle_zone" by code_simp
  then have driving: "if ''driving'' = ''walking'' then is_weakly_connected triangle_zone
               else strongly_connected triangle_zone"
    by simp
  have cap: "fst (cover_loop direct_path remdups (route_graph ''walking'' triangle_zone) (init_walk 1))
               \<noteq> CapReached"
    "fst (cover_loop direct_path remdups (route_graph ''driving'' triangle_zone) (init_walk 2))
               \<noteq> CapReached"
    by code_simp+
  have run: "generate_simple_route direct_path remdups (route_graph ''walking'' triangle_zone) 1 False
     = Inr [1, 2, 3, 1]"
    "generate_simple_route direct_path remdups (route_graph ''driving'' triangle_zone) 2 True
     = Inr [2, 3, 1, 2]"
    by code_simp+
  from walk_covers_zone_edges[OF wf start(1) direct_path_contract set_iter_contract_remdups
      walking cap(1), of False] run(1)
  have "covers_all_edges [1, 2, 3, 1] triangle_zone" by simp
  moreover from walk_covers_zone_edges[OF wf start(2) direct_path_contract
      set_iter_contract_remdups driving cap(2), of True] run(2)
  have "covers_all_edges [2, 3, 1, 2] triangle_zone" by simp
  ultimately show ?thesis using run by blast
qed

text \<open>
  C8.  The loop of \<^verbatim>\<open>generate_simple_route\<close> runs at most \<open>3 * |E| + 100\<close> times, for
  every graph, start node, path function and set order.  \<open>cover_loop\<close> is a total
  function: its recursion is accepted with the measure \<open>max_iterations G - iterations st\<close>,
  the loop's own counter, and the steps after the loop do not recurse.
\<close>

theorem walk_iteration_bound:
  "iterations (snd (cover_loop sp set_iter G (init_walk start_node))) \<le> 3 * length (edges G) + 100"
  using cover_loop_iterations_le[of "init_walk start_node" G sp set_iter]
  by (simp add: init_walk_def max_iterations_def)

theorem walk_iteration_bound_witness:
  "iterations (snd (cover_loop direct_path remdups triangle_zone (init_walk 1))) \<le> 109"
  using walk_iteration_bound[of direct_path remdups triangle_zone 1]
  by (simp add: triangle_zone_def)

text \<open>
  C9.  On a graph that contains the start node, the walk is returned, is not empty and
  begins with the start node; and for a zone with at least one edge the route is
  returned and its first waypoint is the \<open>(lat, lng)\<close> of the start node that was
  selected, whatever \<open>return_to_start\<close> and \<open>travel_mode\<close> are.
\<close>

theorem walk_starts_at_start_node:
  "(wf_graph G \<and> shortest_path_contract sp G \<and> set_iter_contract set_iter \<and>
      start_node \<in> set (node_ids G) \<longrightarrow>
      (\<exists>walk. generate_simple_route sp set_iter G start_node return_to_start = Inr walk \<and>
         walk \<noteq> [] \<and> hd walk = start_node)) \<and>
   (wf_graph zone \<and> shortest_path_contract sp (route_graph travel_mode zone) \<and>
      set_iter_contract set_iter \<and> edges zone \<noteq> [] \<longrightarrow>
      (\<exists>s lng lat r. choose_start zone start_point = Inr (Some s) \<and>
         node_coords zone s = Some (lng, lat) \<and>
         generate_route_for_zone sp set_iter zone start_point return_to_start travel_mode = Inr r \<and>
         waypoints r \<noteq> [] \<and> hd (waypoints r) = (lat, lng)))"
proof (intro conjI impI)
  assume "wf_graph G \<and> shortest_path_contract sp G \<and> set_iter_contract set_iter \<and>
      start_node \<in> set (node_ids G)"
  then show "\<exists>walk. generate_simple_route sp set_iter G start_node return_to_start = Inr walk \<and>
         walk \<noteq> [] \<and> hd walk = start_node"
    using simple_route_walk[of G sp set_iter start_node return_to_start] by blast
next
  let ?G = "route_graph travel_mode zone"
  assume a: "wf_graph zone \<and> shortest_path_contract sp ?G \<and>
      set_iter_contract set_iter \<and> edges zone \<noteq> []"
  then have ne: "nodes zone \<noteq> []" using wf_graph_nodes by blast
  from choose_start_Some[OF ne] obtain s where
    s: "choose_start zone start_point = Inr (Some s)" "s \<in> set (node_ids zone)" by blast
  obtain lng lat where co: "node_coords zone s = Some (lng, lat)"
    using node_coords_Some[OF s(2)] by blast
  from a s(2) have "wf_graph ?G" "s \<in> set (node_ids ?G)" by simp_all
  from simple_route_walk[OF this(1) _ _ this(2), of sp set_iter return_to_start] a
  obtain walk where w: "generate_simple_route sp set_iter ?G s return_to_start = Inr walk"
    "walk \<noteq> []" "hd walk = s" "set walk \<subseteq> set (node_ids zone)" by auto
  from walk_waypoints_ok[OF w(4), of None "[]" 0]
  obtain wps total where wp: "walk_waypoints zone None walk [] 0 = Inr (wps, total)"
    "length wps = length walk"
    "\<forall>n lng lat rest. walk = n # rest \<longrightarrow> node_coords zone n = Some (lng, lat) \<longrightarrow> hd wps = (lat, lng)"
    by auto
  have "hd wps = (lat, lng)" using wp(3) w(2,3) co by (cases walk) auto
  moreover have "wps \<noteq> []" using wp(2) w(2) by auto
  moreover have "generate_route_for_zone sp set_iter zone start_point return_to_start travel_mode =
     Inr \<lparr>waypoints = wps,
          geometry = LineString (map (\<lambda>(lat, lng). (lng, lat)) wps),
          total_distance_m = total,
          turn_by_turn = generate_turn_by_turn zone walk\<rparr>"
    using a s(1) w(1) wp(1) by (simp add: generate_route_for_zone_def)
  ultimately show "\<exists>s lng lat r. choose_start zone start_point = Inr (Some s) \<and>
         node_coords zone s = Some (lng, lat) \<and>
         generate_route_for_zone sp set_iter zone start_point return_to_start travel_mode = Inr r \<and>
         waypoints r \<noteq> [] \<and> hd (waypoints r) = (lat, lng)"
    using s(1) co by auto
qed

theorem walk_starts_at_start_node_witness:
  "(\<exists>walk. generate_simple_route direct_path remdups (route_graph ''walking'' triangle_zone) 1 True
        = Inr walk \<and> walk \<noteq> [] \<and> hd walk = 1) \<and>
   (\<exists>s lng lat r. choose_start triangle_zone None = Inr (Some s) \<and>
         node_coords triangle_zone s = Some (lng, lat) \<and>
         generate_route_for_zone direct_path remdups triangle_zone None True ''walking'' = Inr r \<and>
         waypoints r \<noteq> [] \<and> hd (waypoints r) = (lat, lng))"
proof -
  have wf: "wf_graph triangle_zone" by code_simp
  have wf': "wf_graph (route_graph ''walking'' triangle_zone)" using wf by simp
  have start: "1 \<in> set (node_ids (route_graph ''walking'' triangle_zone))" by code_simp
  have ne: "edges triangle_zone \<noteq> []" by (simp add: triangle_zone_def)
  show ?thesis
    using walk_starts_at_start_node[of "route_graph ''walking'' triangle_zone" direct_path remdups 1
        True triangle_zone "''walking''" None]
      wf wf' start ne direct_path_contract set_iter_contract_remdups
    by blast
qed

text \<open>
  C10.  A zone without edges gives, without an error, the route with no waypoints, an
  empty \<open>LineString\<close>, distance 0 and no turn-by-turn steps.
\<close>

theorem empty_zone_route:
  "edges zone = [] \<Longrightarrow>
     generate_route_for_zone sp set_iter zone start_point return_to_start travel_mode =
       Inr \<lparr>waypoints = [], geometry = LineString [], total_distance_m = 0, turn_by_turn = []\<rparr>"
  by (simp add: generate_route_for_zone_def)

theorem empty_zone_route_witness:
  "generate_route_for_zone direct_path remdups (triangle_zone\<lparr>edges := []\<rparr>) (Some (1, 2)) True
      ''driving'' =
       Inr \<lparr>waypoints = [], geometry = LineString [], total_distance_m = 0, turn_by_turn = []\<rparr>"
  using empty_zone_route[of "triangle_zone\<lparr>edges := []\<rparr>" direct_path remdups "Some (1, 2)" True
      "''driving''"]
  by simp

text \<open>
  C6.  In the turn-by-turn list of a generated route no two adjacent steps have the
  same street name, and the distances of the steps add up to the total distance of the
  route.  Lengths are exact reals here, so the two sums are equal; the tolerance of the
  claim is for the rounding of the floating-point additions, which is not modelled.
\<close>

theorem turn_by_turn_merged:
  assumes "generate_route_for_zone sp set_iter zone start_point return_to_start travel_mode = Inr r"
  shows "distinct_adj (map street_name (turn_by_turn r)) \<and>
         sum_list (map distance_m (turn_by_turn r)) = total_distance_m r"
proof (cases "length (edges zone) = 0")
  case True
  then show ?thesis using assms by (auto simp: generate_route_for_zone_def)
next
  case False
  then obtain walk wps tdist where
    wp: "walk_waypoints zone None walk [] 0 = Inr (wps, tdist)" and
    r: "r = \<lparr>waypoints = wps,
          geometry = LineString (map (\<lambda>(lat, lng). (lng, lat)) wps),
          total_distance_m = tdist,
          turn_by_turn = generate_turn_by_turn zone walk\<rparr>"
    using assms
    by (auto simp: generate_route_for_zone_def split: sum.splits option.splits)
  have "distinct_adj (map street_name (generate_turn_by_turn zone walk))"
    using merge_directions_names[of "[]" "directions_from zone 0 walk"]
    by (simp add: generate_turn_by_turn_def)
  moreover have "sum_list (map distance_m (generate_turn_by_turn zone walk)) = tdist"
    using walk_waypoints_total[OF wp, of 0]
    by (simp add: generate_turn_by_turn_def merge_directions_distance)
  ultimately show ?thesis using r by simp
qed

theorem turn_by_turn_merged_witness:
  "distinct_adj (map street_name (turn_by_turn triangle_route)) \<and>
   sum_list (map distance_m (turn_by_turn triangle_route)) = total_distance_m triangle_route"
  using turn_by_turn_merged[OF triangle_route_eval] .

section \<open>The claims about the export and the orchestrator\<close>

lemma length_stride_le: "length (stride k xs) \<le> length xs"
proof (induction k xs rule: stride.induct)
  case (2 k x xs)
  then show ?case by (simp add: le_diff_conv) 
qed simp

lemma url_points_sampled: "length wps \<ge> 2 \<Longrightarrow> length (sample_waypoints wps) \<ge> 2 \<Longrightarrow>
   length (url_points wps) = length (sample_waypoints wps)"
  by (auto simp: url_points_def)

lemma url_points_limit:
  assumes "length wps \<noteq> 24" "length wps \<noteq> 25"
  shows "length (url_points wps) \<le> 23"
proof -
  have "length (sample_waypoints wps) \<le> 23"
    using assms by (auto simp: sample_waypoints_def max_wp_def)
  then show ?thesis by (auto simp: url_points_def)
qed

text \<open>
  C4.  The claim is right and the code misses it for lists of 24 and 25 waypoints: the
  docstring says that waypoints are subsampled when there are more than 23, the code
  subsamples when there are more than \<open>max_wp + 2 = 25\<close>.  A list of 24 waypoints is
  not sampled and the URL encodes all 24 points: the origin, 22 waypoints and the
  destination (\<open>no_format\<close> writes every number as a question mark).  For every length
  other than 24 and 25 the URL has at most 23 points (\<open>url_points_limit\<close>).
\<close>

theorem google_maps_url_24_points:
  "length meridian_waypoints = 24 \<and> sample_waypoints meridian_waypoints = meridian_waypoints \<and>
   length (url_points meridian_waypoints) = 24 \<and>
   generate_google_maps_url no_format meridian_waypoints ''walking'' =
     ''https://www.google.com/maps/dir/?api=1&origin=?,?&destination=?,?&waypoints='' @
     join_bar (replicate 22 ''?,?'') @ ''&travelmode=walking''"
proof -
  have len: "length meridian_waypoints = 24" by (simp add: meridian_waypoints_def)
  then have s: "sample_waypoints meridian_waypoints = meridian_waypoints"
    by (simp add: sample_waypoints_def max_wp_def)
  have pts: "length (url_points meridian_waypoints) = 24"
    using len by (simp add: url_points_def s)
  have url: "generate_google_maps_url no_format meridian_waypoints ''walking'' =
     ''https://www.google.com/maps/dir/?api=1&origin=?,?&destination=?,?&waypoints='' @
     join_bar (replicate 22 ''?,?'') @ ''&travelmode=walking''"
    by code_simp
  from len s pts url show ?thesis by blast
qed







lemma allocate_flyers_length [simp]: "length (allocate_flyers flyers zs) = length zs"
  by (simp add: allocate_flyers_def Let_def)








section \<open>The claims about the geometry and the density estimator\<close>










section \<open>The claims about the partitioner\<close>

lemma arcs_undirected:
  "\<not> directed H \<Longrightarrow> set (arcs H) = {(a, b). edge_key a b \<in> edge_keys H}"
proof (intro set_eqI iffI)
  fix p assume nd: "\<not> directed H" and "p \<in> set (arcs H)"
  then obtain e where "e \<in> set (edges H)"
    "p = (edge_src e, edge_dst e) \<or> p = (edge_dst e, edge_src e)"
    by (auto simp: arcs_def)
  then show "p \<in> {(a, b). edge_key a b \<in> edge_keys H}"
    by (auto simp: edge_keys_def edge_key_sym)
next
  fix p assume nd: "\<not> directed H" and "p \<in> {(a, b). edge_key a b \<in> edge_keys H}"
  then obtain a b e where p: "p = (a, b)" and e: "e \<in> set (edges H)"
    "edge_key a b = edge_key (edge_src e) (edge_dst e)"
    by (auto simp: edge_keys_def)
  from edge_key_eq[OF e(2)] have "p = (edge_src e, edge_dst e) \<or> p = (edge_dst e, edge_src e)"
    using p by auto
  then show "p \<in> set (arcs H)" using nd e(1) by (auto simp: arcs_def)
qed

lemma arcs_to_undirected:
  "set (arcs (to_undirected G)) = {(a, b). edge_key a b \<in> edge_keys G}"
proof -
  have "\<not> directed (to_undirected G)" by (simp add: to_undirected_def)
  from arcs_undirected[OF this] show ?thesis by simp
qed

lemma node_ids_induced [simp]:
  "set (node_ids (induced_subgraph G c)) = set (node_ids G) \<inter> set c"
  by (auto simp: node_ids_def induced_subgraph_def)

lemma edge_keys_induced:
  "edge_keys (induced_subgraph G c) =
     (\<lambda>e. edge_key (edge_src e) (edge_dst e)) `
       {e \<in> set (edges G). edge_src e \<in> set c \<and> edge_dst e \<in> set c}"
  by (auto simp: edge_keys_def induced_subgraph_def)

lemma arcs_induced:
  "set (arcs (to_undirected (induced_subgraph G c))) =
     set (arcs (to_undirected G)) \<inter> set c \<times> set c"
proof (intro set_eqI iffI)
  fix p assume "p \<in> set (arcs (to_undirected (induced_subgraph G c)))"
  then obtain a b e where p: "p = (a, b)" and e: "e \<in> set (edges G)"
    "edge_src e \<in> set c" "edge_dst e \<in> set c"
    "edge_key a b = edge_key (edge_src e) (edge_dst e)"
    by (auto simp: arcs_to_undirected edge_keys_induced)
  from edge_key_eq[OF e(4)] e(2,3) have "a \<in> set c" "b \<in> set c" by auto
  moreover have "edge_key a b \<in> edge_keys G" using e(1,4) by (auto simp: edge_keys_def)
  ultimately show "p \<in> set (arcs (to_undirected G)) \<inter> set c \<times> set c"
    using p by (simp add: arcs_to_undirected)
next
  fix p assume "p \<in> set (arcs (to_undirected G)) \<inter> set c \<times> set c"
  then obtain a b e where p: "p = (a, b)" and ab: "a \<in> set c" "b \<in> set c"
    and e: "e \<in> set (edges G)" "edge_key a b = edge_key (edge_src e) (edge_dst e)"
    by (auto simp: arcs_to_undirected edge_keys_def)
  from edge_key_eq[OF e(2)] ab have "edge_src e \<in> set c" "edge_dst e \<in> set c" by auto
  then have "edge_key a b \<in> edge_keys (induced_subgraph G c)"
    using e unfolding edge_keys_induced by blast
  then show "p \<in> set (arcs (to_undirected (induced_subgraph G c)))"
    using p by (simp add: arcs_to_undirected)
qed

lemma arcs_to_undirected_sym: "sym (set (arcs (to_undirected G)))"
  by (auto simp: arcs_to_undirected sym_def edge_key_sym)

lemma arcs_to_undirected_nodes:
  "wf_graph G \<Longrightarrow> (a, b) \<in> set (arcs (to_undirected G)) \<Longrightarrow>
     a \<in> set (node_ids G) \<and> b \<in> set (node_ids G)"
proof -
  assume wf: "wf_graph G" and "(a, b) \<in> set (arcs (to_undirected G))"
  then obtain e where e: "e \<in> set (edges G)"
    "edge_key a b = edge_key (edge_src e) (edge_dst e)"
    by (auto simp: arcs_to_undirected edge_keys_def)
  from edge_key_eq[OF e(2)] wf e(1) show ?thesis by (auto simp: wf_graph_iff)
qed

lemma reach_in_component:
  assumes nodes: "\<And>a b. (a, b) \<in> R \<Longrightarrow> b \<in> N"
    and C: "C = {v \<in> N. n = v \<or> (n, v) \<in> R\<^sup>+}" and n: "n \<in> N"
  shows "(n, v) \<in> R\<^sup>+ \<Longrightarrow> (n, v) \<in> (R \<inter> C \<times> C)\<^sup>+"
proof (induction rule: trancl_induct)
  case (base y)
  then have "y \<in> C" "n \<in> C" using nodes n C by auto
  then show ?case using base by auto
next
  case (step y z)
  have "y \<in> N" using step(1) nodes by (metis tranclE)
  then have "y \<in> C" using step(1) C by simp
  moreover have "z \<in> C" using step(1,2) nodes C by (simp add: trancl_into_trancl[OF step(1,2)])
  ultimately have "(y, z) \<in> R \<inter> C \<times> C" using step(2) by simp
  then show ?case using step(3) by (rule trancl_into_trancl[rotated])
qed

lemma component_connected:
  assumes wf: "wf_graph G" and n: "n \<in> set (node_ids G)"
    and c: "c = filter (has_path (to_undirected G) n) (node_ids G)"
  shows "is_weakly_connected (induced_subgraph G c)"
proof -
  let ?R = "set (arcs (to_undirected G))"
  let ?N = "set (node_ids G)"
  let ?R' = "set (arcs (to_undirected (induced_subgraph G c)))"
  have C: "set c = {v \<in> ?N. n = v \<or> (n, v) \<in> ?R\<^sup>+}"
    using c by (auto simp: has_path_def)
  have R': "?R' = ?R \<inter> set c \<times> set c" by (rule arcs_induced)
  have sym': "sym ?R'" by (rule arcs_to_undirected_sym)
  have from_n: "v = n \<or> (n, v) \<in> ?R'\<^sup>+" if "v \<in> set c" for v
  proof (cases "v = n")
    case False
    then have "(n, v) \<in> ?R\<^sup>+" using that C by auto
    from reach_in_component[of ?R ?N "set c" n, OF _ C n this]
    show ?thesis using arcs_to_undirected_nodes[OF wf] unfolding R' by blast
  qed simp
  have "has_path (to_undirected (induced_subgraph G c)) u v"
    if "u \<in> set c" "v \<in> set c" for u v
  proof -
    from from_n[OF that(1)] have un: "u = n \<or> (u, n) \<in> ?R'\<^sup>+"
      using sym_trancl[OF sym'] by (auto dest: symD)
    from from_n[OF that(2)] un show ?thesis
      unfolding has_path_def by (auto intro: trancl_trans)
  qed
  then show ?thesis
    by (auto simp: is_weakly_connected_def strongly_connected_def list_all_iff)
qed

lemma components_from_form:
  "c \<in> set (components_from G ns) \<Longrightarrow>
     \<exists>n \<in> set ns. c = filter (has_path (to_undirected G) n) (node_ids G)"
proof (induction G ns rule: components_from.induct)
  case (1 G)
  then show ?case by simp
next
  case (2 G n ns)
  then show ?case by auto
qed

lemma largest_in: "cs \<noteq> [] \<Longrightarrow> largest cs \<in> set cs"
proof -
  have "fold (\<lambda>c best. if length c > length best then c else best) xs b \<in> insert b (set xs)"
    for xs :: "node list list" and b
    by (induction xs arbitrary: b) auto
  from this[of "tl cs" "hd cs"] show "cs \<noteq> [] \<Longrightarrow> largest cs \<in> set cs"
    by (cases cs) (auto simp: largest_def)
qed

lemma is_weakly_connected_zone_id [simp]:
  "is_weakly_connected (G\<lparr>zone_id := z\<rparr>) = is_weakly_connected G"
  by (simp add: is_weakly_connected_def strongly_connected_def has_path_def arcs_def
      to_undirected_def node_ids_def)

lemma wf_graph_edge_subgraph: "wf_graph G \<Longrightarrow> wf_graph (edge_subgraph G es)"
  unfolding wf_graph_iff
  by (auto simp: edge_subgraph_def node_ids_def edge_triple_def) force+

lemma weakly_connected_no_nodes: "node_ids G = [] \<Longrightarrow> is_weakly_connected G"
  by (simp add: is_weakly_connected_def strongly_connected_def)

lemma components_Nil: "weakly_connected_components G = [] \<Longrightarrow> node_ids G = []"
  by (cases "node_ids G") (auto simp: weakly_connected_components_def)

lemma make_zone_connected:
  assumes wf: "wf_graph G" and es: "es \<noteq> []" "set es \<subseteq> edge_triple ` set (edges G)"
  shows "is_weakly_connected (make_zone G zid es)"
proof -
  let ?sub = "edge_subgraph G es"
  let ?cs = "weakly_connected_components ?sub"
  show ?thesis
  proof (cases "length (edges ?sub) > 0 \<and> \<not> is_weakly_connected ?sub \<and> ?cs \<noteq> []")
    case True
    then have "largest ?cs \<in> set ?cs" by (simp add: largest_in)
    then obtain n where n: "n \<in> set (node_ids ?sub)"
      "largest ?cs = filter (has_path (to_undirected ?sub) n) (node_ids ?sub)"
      unfolding weakly_connected_components_def using components_from_form by blast
    from component_connected[OF wf_graph_edge_subgraph[OF wf] n]
    show ?thesis using True by (simp add: make_zone_def)
  next
    case False
    show ?thesis
    proof (cases "is_weakly_connected ?sub")
      case True
      then show ?thesis using False by (simp add: make_zone_def)
    next
      case nc: False
      then have "edges ?sub = [] \<or> ?cs = []" using False by auto
      moreover have "edges ?sub \<noteq> []"
      proof -
        obtain t where "t \<in> set es" using es(1) by (cases es) auto
        then obtain e where "e \<in> set (edges G)" "edge_triple e \<in> set es" using es(2) by auto
        then have "e \<in> set (edges ?sub)" by (simp add: edge_subgraph_def)
        then show ?thesis by auto
      qed
      ultimately have "node_ids ?sub = []" using components_Nil by blast
      then show ?thesis using nc weakly_connected_no_nodes by blast
    qed
  qed
qed

lemma zones_of_labels_connected:
  assumes "wf_graph G"
  shows "list_all is_weakly_connected (zones_of_labels G num_zones labels)"
proof -
  have "is_weakly_connected z" if "z \<in> set (zones_of_labels G num_zones labels)" for z
  proof -
    from that obtain zid where z:
      "map (edge_triple \<circ> fst) (filter (\<lambda>(e, c). c = zid) (zip (edges G) labels)) \<noteq> []"
      "z = make_zone G zid
             (map (edge_triple \<circ> fst) (filter (\<lambda>(e, c). c = zid) (zip (edges G) labels)))"
      by (auto simp: zones_of_labels_def split: if_splits)
    have "set (map (edge_triple \<circ> fst) (filter (\<lambda>(e, c). c = zid) (zip (edges G) labels)))
        \<subseteq> edge_triple ` set (edges G)"
      by (auto dest: set_zip_leftD)
    from make_zone_connected[OF assms z(1) this] show ?thesis using z(2) by simp
  qed
  then show ?thesis by (simp add: list_all_iff)
qed

lemma partition_zones_connected:
  assumes "wf_graph G" "num_zones \<noteq> 1"
    "partition_graph_into_zones kmeans mid G num_zones balance_priority = Inr zones"
  shows "list_all is_weakly_connected zones"
proof -
  from assms(2,3) obtain labels where "zones = zones_of_labels G num_zones labels"
    by (auto simp: partition_graph_into_zones_def split: sum.splits)
  then show ?thesis using zones_of_labels_connected[OF assms(1)] by simp
qed

lemma partition_single_zone:
  "partition_graph_into_zones kmeans mid G 1 balance_priority = Inr [G]"
  by (simp add: partition_graph_into_zones_def)

text \<open>
  C3.  The claim is right for every zone count but 1 (\<open>partition_zones_connected\<close>: every
  zone is the subgraph of its edges reduced to its largest weakly connected component).
  For \<open>num_zones = 1\<close> the early return gives the input graph back without that
  reduction, whatever the clustering and the priority: the graph of two streets that do
  not meet is returned as one zone that is not weakly connected.
\<close>

theorem single_zone_not_connected:
  "wf_graph split_graph \<and>
   partition_graph_into_zones kmeans mid split_graph 1 balance_priority = Inr [split_graph] \<and>
   \<not> is_weakly_connected split_graph"
proof -
  have "wf_graph split_graph" by code_simp
  moreover have "\<not> is_weakly_connected split_graph" by code_simp
  ultimately show ?thesis by (simp add: partition_graph_into_zones_def)
qed

end
